theory Spec2Isabelle
  imports Main "HOL-Library.Word"
begin

section \<open>The msm GEM shrinker (drivers/gpu/drm/msm/msm_gem_shrinker.c)\<close>

text \<open>
  A shallow embedding of the memory-pressure reclaim callbacks of the msm DRM driver:
  the lock guard \<^verbatim>\<open>msm_gem_shrinker_lock\<close>, the capacity estimator
  \<^verbatim>\<open>msm_gem_shrinker_count\<close>, the storage-purge pass \<^verbatim>\<open>msm_gem_shrinker_scan\<close>,
  the mapping-unmap pass \<^verbatim>\<open>msm_gem_shrinker_vmap\<close> and the teardown
  \<^verbatim>\<open>msm_gem_shrinker_cleanup\<close>. Mutation of the device is explicit state passing;
  calls to the tracing and registration collaborators are recorded in an event log.
\<close>

subsection \<open>Data model\<close>

text \<open>\<^verbatim>\<open>unsigned long\<close> and \<^verbatim>\<open>unsigned\<close> of the 64-bit target; sums wrap around.\<close>

type_synonym ulong = "64 word"
type_synonym uint = "32 word"

text \<open>An execution context (the kernel's \<^verbatim>\<open>current\<close>).\<close>

type_synonym ctx = nat

text \<open>
  Modelled from the spec: the discard-advice flag of a tracked object (the field
  \<^verbatim>\<open>madv\<close> of \<^verbatim>\<open>struct msm_gem_object\<close>, declared in msm_gem.h), three-valued:
  willing-to-discard, keep, do-not-need.
\<close>

datatype discard_advice = WillingToDiscard | Keep | DoNotNeed

text \<open>
  Modelled from the spec: \<^verbatim>\<open>struct msm_gem_object\<close> (msm_gem.h) with the attributes
  the spec's data model lists. \<open>base_size\<close> is \<^verbatim>\<open>base.size\<close>, the byte size the
  source shifts by \<^verbatim>\<open>PAGE_SHIFT\<close>; \<open>refcount\<close> is the reference/pin count;
  \<open>resident\<close> says that the object has backing storage; \<open>vaddr\<close> says that a
  virtual mapping is present.
\<close>

record msm_gem_object =
  base_size :: ulong
  madv :: discard_advice
  refcount :: nat
  resident :: bool
  vaddr :: bool

text \<open>
  The constants of kernel headers that the source uses and does not define
  (\<^verbatim>\<open>PAGE_SHIFT\<close>, \<^verbatim>\<open>SHRINK_STOP\<close>, \<^verbatim>\<open>NOTIFY_DONE\<close>, \<^verbatim>\<open>ENOMEM\<close>): parameters of
  the model.
\<close>

record kconsts =
  PAGE_SHIFT :: nat
  SHRINK_STOP :: ulong
  NOTIFY_DONE :: int
  ENOMEM :: int

text \<open>Calls to external collaborators, in the order they are made.\<close>

datatype event =
    Trace_msm_gem_purge ulong
  | Trace_msm_gem_purge_vmaps uint
  | Shrinker_alloc
  | Shrinker_register
  | Register_vmap_purge_notifier
  | Unregister_vmap_purge_notifier
  | Shrinker_free
  | Warn_on

text \<open>
  \<^verbatim>\<open>struct msm_drm_private\<close> together with its \<^verbatim>\<open>struct drm_device\<close>:
  \<open>struct_mutex\<close> is the owner of \<^verbatim>\<open>dev->struct_mutex\<close> (\<open>None\<close> when the lock
  is free), \<open>inactive_list\<close> the ordered inactive collection, \<open>shrinker\<close> the
  pointer \<^verbatim>\<open>priv->shrinker\<close> (\<open>None\<close> is \<^verbatim>\<open>NULL\<close>), \<open>events\<close> the log of
  collaborator calls.
\<close>

record msm_drm_private =
  struct_mutex :: "ctx option"
  inactive_list :: "msm_gem_object list"
  shrinker :: "nat option"
  events :: "event list"

subsection \<open>Primitives consumed from the object manager and the kernel\<close>

text \<open>
  Modelled from the spec: \<^verbatim>\<open>is_purgeable\<close> (msm_gem.h). An object is eligible for
  storage purge only if discard-advice = willing-to-discard AND reference count = 0 AND
  it currently has backing storage.
\<close>

definition is_purgeable :: "msm_gem_object \<Rightarrow> bool" where
  "is_purgeable obj = (madv obj = WillingToDiscard \<and> refcount obj = 0 \<and> resident obj)"

text \<open>
  Modelled from the spec: \<^verbatim>\<open>is_vunmapable\<close> (msm_gem.h). An object is eligible for
  mapping unmap only if it has a present virtual mapping AND reference count = 0.
\<close>

definition is_vunmapable :: "msm_gem_object \<Rightarrow> bool" where
  "is_vunmapable obj = (vaddr obj \<and> refcount obj = 0)"

text \<open>
  Modelled from the spec: \<^verbatim>\<open>msm_gem_purge\<close> (msm_gem.c) releases the backing storage
  of the object and marks it non-resident.
\<close>

definition msm_gem_purge :: "msm_gem_object \<Rightarrow> msm_gem_object" where
  "msm_gem_purge obj = obj\<lparr>resident := False\<rparr>"

text \<open>
  Modelled from the spec: \<^verbatim>\<open>msm_gem_vunmap\<close> (msm_gem.c) revokes the virtual mapping;
  the object remains resident in backing storage.
\<close>

definition msm_gem_vunmap :: "msm_gem_object \<Rightarrow> msm_gem_object" where
  "msm_gem_vunmap obj = obj\<lparr>vaddr := False\<rparr>"

text \<open>The three results that the \<^verbatim>\<open>switch\<close> of the lock guard distinguishes.\<close>

datatype mutex_trylock_recursive_enum =
  MUTEX_TRYLOCK_FAILED | MUTEX_TRYLOCK_SUCCESS | MUTEX_TRYLOCK_RECURSIVE

text \<open>
  Modelled from the spec: \<^verbatim>\<open>mutex_trylock_recursive\<close> (linux/mutex.h), called by
  \<open>cur\<close>. A lock that \<open>cur\<close> already holds is reported as recursive and left as it is;
  a free lock is taken; a lock held by a different context fails at once.
\<close>

definition mutex_trylock_recursive ::
  "ctx \<Rightarrow> ctx option \<Rightarrow> mutex_trylock_recursive_enum \<times> ctx option" where
  "mutex_trylock_recursive cur lock =
     (if lock = Some cur then (MUTEX_TRYLOCK_RECURSIVE, lock)
      else if lock = None then (MUTEX_TRYLOCK_SUCCESS, Some cur)
      else (MUTEX_TRYLOCK_FAILED, lock))"

text \<open>Modelled from the spec: \<^verbatim>\<open>mutex_unlock\<close> (linux/mutex.h) frees the lock.\<close>

definition mutex_unlock :: "msm_drm_private \<Rightarrow> msm_drm_private" where
  "mutex_unlock priv = priv\<lparr>struct_mutex := None\<rparr>"

subsection \<open>The lock guard\<close>

text \<open>
  \<^verbatim>\<open>msm_gem_shrinker_lock(dev, &unlock)\<close>. The result is the returned flag, the content
  of \<^verbatim>\<open>*unlock\<close> afterwards (\<open>None\<close>: not written, the caller's variable is still
  uninitialised) and the device. The three constructors of the enumeration exhaust the
  \<^verbatim>\<open>switch\<close>, so the trailing \<^verbatim>\<open>BUG()\<close> has no branch.
\<close>

definition msm_gem_shrinker_lock ::
  "ctx \<Rightarrow> msm_drm_private \<Rightarrow> bool \<times> bool option \<times> msm_drm_private" where
  "msm_gem_shrinker_lock cur priv =
     (case mutex_trylock_recursive cur (struct_mutex priv) of
        (MUTEX_TRYLOCK_FAILED, m) \<Rightarrow> (False, None, priv\<lparr>struct_mutex := m\<rparr>)
      | (MUTEX_TRYLOCK_SUCCESS, m) \<Rightarrow> (True, Some True, priv\<lparr>struct_mutex := m\<rparr>)
      | (MUTEX_TRYLOCK_RECURSIVE, m) \<Rightarrow> (True, Some False, priv\<lparr>struct_mutex := m\<rparr>))"

text \<open>The epilogue \<^verbatim>\<open>if (unlock) mutex_unlock(&dev->struct_mutex);\<close> of each pass.\<close>

definition release :: "bool option \<Rightarrow> msm_drm_private \<Rightarrow> msm_drm_private" where
  "release unlock priv = (if unlock = Some True then mutex_unlock priv else priv)"

subsection \<open>The capacity estimator\<close>

text \<open>The loop of \<^verbatim>\<open>msm_gem_shrinker_count\<close>; \<open>count\<close> is the running sum.\<close>

fun count_loop :: "kconsts \<Rightarrow> ulong \<Rightarrow> msm_gem_object list \<Rightarrow> ulong" where
  "count_loop k count [] = count"
| "count_loop k count (msm_obj # rest) =
     count_loop k
       (if is_purgeable msm_obj then count + drop_bit (PAGE_SHIFT k) (base_size msm_obj)
        else count)
       rest"

definition msm_gem_shrinker_count ::
  "kconsts \<Rightarrow> ctx \<Rightarrow> msm_drm_private \<Rightarrow> ulong \<times> msm_drm_private" where
  "msm_gem_shrinker_count k cur priv =
     (case msm_gem_shrinker_lock cur priv of
        (False, unlock, priv1) \<Rightarrow> (0, priv1)
      | (True, unlock, priv1) \<Rightarrow>
          (let count = count_loop k 0 (inactive_list priv1)
           in (count, release unlock priv1)))"

subsection \<open>The storage-purge pass\<close>

text \<open>
  The loop of \<^verbatim>\<open>msm_gem_shrinker_scan\<close> over the remaining objects, with the budget
  \<open>nr_to_scan\<close> and the running total \<open>freed\<close>: the objects afterwards, and the total.
  The size is read after the purge, as the source does.
\<close>

fun scan_loop ::
  "kconsts \<Rightarrow> ulong \<Rightarrow> ulong \<Rightarrow> msm_gem_object list \<Rightarrow> msm_gem_object list \<times> ulong" where
  "scan_loop k nr_to_scan freed [] = ([], freed)"
| "scan_loop k nr_to_scan freed (msm_obj # rest) =
     (if freed \<ge> nr_to_scan then (msm_obj # rest, freed)
      else if is_purgeable msm_obj then
        (let purged = msm_gem_purge msm_obj;
             (rest', freed') =
               scan_loop k nr_to_scan (freed + drop_bit (PAGE_SHIFT k) (base_size purged)) rest
         in (purged # rest', freed'))
      else
        (let (rest', freed') = scan_loop k nr_to_scan freed rest
         in (msm_obj # rest', freed')))"

definition trace_purge :: "kconsts \<Rightarrow> ulong \<Rightarrow> msm_drm_private \<Rightarrow> msm_drm_private" where
  "trace_purge k freed priv =
     (if freed > 0
      then priv\<lparr>events := events priv @ [Trace_msm_gem_purge (push_bit (PAGE_SHIFT k) freed)]\<rparr>
      else priv)"

definition msm_gem_shrinker_scan ::
  "kconsts \<Rightarrow> ctx \<Rightarrow> ulong \<Rightarrow> msm_drm_private \<Rightarrow> ulong \<times> msm_drm_private" where
  "msm_gem_shrinker_scan k cur nr_to_scan priv =
     (case msm_gem_shrinker_lock cur priv of
        (False, unlock, priv1) \<Rightarrow> (SHRINK_STOP k, priv1)
      | (True, unlock, priv1) \<Rightarrow>
          (let (objs, freed) = scan_loop k nr_to_scan 0 (inactive_list priv1);
               priv2 = release unlock (priv1\<lparr>inactive_list := objs\<rparr>)
           in (freed, trace_purge k freed priv2)))"

text \<open>
  The number of loop iterations of the purge pass that get past the \<^verbatim>\<open>break\<close>, that is
  the number of objects whose eligibility is tested: the same control flow as
  \<open>scan_loop\<close>.
\<close>

fun scan_visited :: "kconsts \<Rightarrow> ulong \<Rightarrow> ulong \<Rightarrow> msm_gem_object list \<Rightarrow> nat" where
  "scan_visited k nr_to_scan freed [] = 0"
| "scan_visited k nr_to_scan freed (msm_obj # rest) =
     (if freed \<ge> nr_to_scan then 0
      else if is_purgeable msm_obj then
        Suc (scan_visited k nr_to_scan
               (freed + drop_bit (PAGE_SHIFT k) (base_size (msm_gem_purge msm_obj))) rest)
      else Suc (scan_visited k nr_to_scan freed rest))"

subsection \<open>The mapping-unmap pass\<close>

text \<open>
  The loop of \<^verbatim>\<open>msm_gem_shrinker_vmap\<close>, with the counter \<open>unmapped\<close>: the objects
  afterwards, and the counter.
\<close>

fun vmap_loop :: "uint \<Rightarrow> msm_gem_object list \<Rightarrow> msm_gem_object list \<times> uint" where
  "vmap_loop unmapped [] = ([], unmapped)"
| "vmap_loop unmapped (msm_obj # rest) =
     (if is_vunmapable msm_obj then
        (let vunmapped = msm_gem_vunmap msm_obj;
             unmapped' = unmapped + 1
         in if unmapped' \<ge> 15 then (vunmapped # rest, unmapped')
            else (let (rest', n) = vmap_loop unmapped' rest in (vunmapped # rest', n)))
      else (let (rest', n) = vmap_loop unmapped rest in (msm_obj # rest', n)))"

definition trace_purge_vmaps :: "uint \<Rightarrow> msm_drm_private \<Rightarrow> msm_drm_private" where
  "trace_purge_vmaps unmapped priv =
     (if unmapped > 0
      then priv\<lparr>events := events priv @ [Trace_msm_gem_purge_vmaps unmapped]\<rparr>
      else priv)"

text \<open>
  \<^verbatim>\<open>msm_gem_shrinker_vmap(nb, event, ptr)\<close>; \<open>acc\<close> is the \<^verbatim>\<open>unsigned long\<close> that
  \<^verbatim>\<open>ptr\<close> points to. The result is the return code, the accumulator and the device.
\<close>

definition msm_gem_shrinker_vmap ::
  "kconsts \<Rightarrow> ctx \<Rightarrow> ulong \<Rightarrow> msm_drm_private \<Rightarrow> int \<times> ulong \<times> msm_drm_private" where
  "msm_gem_shrinker_vmap k cur acc priv =
     (case msm_gem_shrinker_lock cur priv of
        (False, unlock, priv1) \<Rightarrow> (NOTIFY_DONE k, acc, priv1)
      | (True, unlock, priv1) \<Rightarrow>
          (let (objs, unmapped) = vmap_loop 0 (inactive_list priv1);
               priv2 = release unlock (priv1\<lparr>inactive_list := objs\<rparr>)
           in (NOTIFY_DONE k, acc + ucast unmapped, trace_purge_vmaps unmapped priv2)))"

text \<open>The number of objects the unmap pass tests: the control flow of \<open>vmap_loop\<close>.\<close>

fun vmap_visited :: "uint \<Rightarrow> msm_gem_object list \<Rightarrow> nat" where
  "vmap_visited unmapped [] = 0"
| "vmap_visited unmapped (msm_obj # rest) =
     (if is_vunmapable msm_obj then
        (if unmapped + 1 \<ge> 15 then 1 else Suc (vmap_visited (unmapped + 1) rest))
      else Suc (vmap_visited unmapped rest))"

subsection \<open>The objects an invocation tests\<close>

text \<open>
  The number of objects one invocation of an entry point tests: none when the lock guard
  refuses, since the entry point returns before its loop, and what the loop tests
  otherwise.
\<close>

definition scan_tested :: "kconsts \<Rightarrow> ctx \<Rightarrow> ulong \<Rightarrow> msm_drm_private \<Rightarrow> nat" where
  "scan_tested k cur nr_to_scan priv =
     (case msm_gem_shrinker_lock cur priv of
        (False, unlock, priv1) \<Rightarrow> 0
      | (True, unlock, priv1) \<Rightarrow> scan_visited k nr_to_scan 0 (inactive_list priv1))"

definition vmap_tested :: "ctx \<Rightarrow> msm_drm_private \<Rightarrow> nat" where
  "vmap_tested cur priv =
     (case msm_gem_shrinker_lock cur priv of
        (False, unlock, priv1) \<Rightarrow> 0
      | (True, unlock, priv1) \<Rightarrow> vmap_visited 0 (inactive_list priv1))"

subsection \<open>Registration and teardown\<close>

text \<open>
  \<^verbatim>\<open>msm_gem_shrinker_init(dev)\<close>; \<open>alloc\<close> is what \<^verbatim>\<open>shrinker_alloc\<close> returns
  (\<open>None\<close> is \<^verbatim>\<open>NULL\<close>) and \<open>reg\<close> what \<^verbatim>\<open>register_vmap_purge_notifier\<close>
  returns. The shrinker is an opaque handle here: the stores of the two callbacks and of
  \<^verbatim>\<open>private_data\<close> into it are not part of the state.
\<close>

definition msm_gem_shrinker_init ::
  "kconsts \<Rightarrow> nat option \<Rightarrow> int \<Rightarrow> msm_drm_private \<Rightarrow> int \<times> msm_drm_private" where
  "msm_gem_shrinker_init k alloc reg priv =
     (let priv1 = priv\<lparr>shrinker := alloc, events := events priv @ [Shrinker_alloc]\<rparr>
      in if shrinker priv1 = None then (- ENOMEM k, priv1)
         else (0, priv1\<lparr>events := events priv1
                      @ [Shrinker_register, Register_vmap_purge_notifier]
                      @ (if reg \<noteq> 0 then [Warn_on] else [])\<rparr>))"

text \<open>
  \<^verbatim>\<open>msm_gem_shrinker_cleanup(dev)\<close>; \<open>unreg\<close> is what
  \<^verbatim>\<open>unregister_vmap_purge_notifier\<close> returns when it is called, and a non-zero value
  makes \<^verbatim>\<open>WARN_ON\<close> fire.
\<close>

definition msm_gem_shrinker_cleanup :: "int \<Rightarrow> msm_drm_private \<Rightarrow> msm_drm_private" where
  "msm_gem_shrinker_cleanup unreg priv =
     (if shrinker priv \<noteq> None then
        priv\<lparr>events := events priv
               @ [Unregister_vmap_purge_notifier]
               @ (if unreg \<noteq> 0 then [Warn_on] else [])
               @ [Shrinker_free]\<rparr>
      else priv)"

subsection \<open>Specification-level notions\<close>

text \<open>The size of an object in whole allocation units: \<^verbatim>\<open>size >> PAGE_SHIFT\<close>.\<close>

definition units :: "kconsts \<Rightarrow> msm_gem_object \<Rightarrow> ulong" where
  "units k obj = drop_bit (PAGE_SHIFT k) (base_size obj)"

text \<open>
  The sum of the units of the purge-eligible objects of a sequence, in \<^verbatim>\<open>unsigned long\<close>
  arithmetic: the partial sum of the purge pass at the end of that sequence.
\<close>

definition purgeable_units :: "kconsts \<Rightarrow> msm_gem_object list \<Rightarrow> ulong" where
  "purgeable_units k objs = sum_list (map (units k) (filter is_purgeable objs))"

text \<open>The same sum over the natural numbers, which does not wrap.\<close>

definition purgeable_units_nat :: "kconsts \<Rightarrow> msm_gem_object list \<Rightarrow> nat" where
  "purgeable_units_nat k objs = sum_list (map (\<lambda>obj. unat (units k obj)) (filter is_purgeable objs))"

text \<open>Unmapping the first \<open>n\<close> unmap-eligible objects of a sequence.\<close>

fun vunmap_first :: "nat \<Rightarrow> msm_gem_object list \<Rightarrow> msm_gem_object list" where
  "vunmap_first n [] = []"
| "vunmap_first 0 (obj # rest) = obj # rest"
| "vunmap_first (Suc n) (obj # rest) =
     (if is_vunmapable obj then msm_gem_vunmap obj # vunmap_first n rest
      else obj # vunmap_first (Suc n) rest)"

text \<open>The number of positions at which two sequences differ.\<close>

definition changed :: "msm_gem_object list \<Rightarrow> msm_gem_object list \<Rightarrow> nat" where
  "changed objs objs' = length (filter (\<lambda>(a, b). a \<noteq> b) (zip objs objs'))"

text \<open>The number of unmap-eligible objects of the inactive collection.\<close>

definition vunmapable_count :: "msm_drm_private \<Rightarrow> nat" where
  "vunmapable_count priv = length (filter is_vunmapable (inactive_list priv))"

text \<open>
  One delivery of the notification, as a step on the accumulator and the device; a
  follow-up invocation is a second step on the result.
\<close>

definition vmap_pass ::
  "kconsts \<Rightarrow> ctx \<Rightarrow> ulong \<times> msm_drm_private \<Rightarrow> ulong \<times> msm_drm_private" where
  "vmap_pass k cur = (\<lambda>(acc, priv). snd (msm_gem_shrinker_vmap k cur acc priv))"

text \<open>The device without the objects whose reference count is not 0.\<close>

definition unpinned :: "msm_drm_private \<Rightarrow> msm_drm_private" where
  "unpinned priv =
     priv\<lparr>inactive_list := filter (\<lambda>obj. refcount obj = 0) (inactive_list priv)\<rparr>"

subsection \<open>Concrete states\<close>

text \<open>
  Pages of 4096 bytes; \<^verbatim>\<open>SHRINK_STOP\<close> is all ones, \<^verbatim>\<open>NOTIFY_DONE\<close> is 0 and
  \<^verbatim>\<open>ENOMEM\<close> is 12.
\<close>

definition k12 :: kconsts where
  "k12 = \<lparr>PAGE_SHIFT = 12, SHRINK_STOP = - 1, NOTIFY_DONE = 0, ENOMEM = 12\<rparr>"

text \<open>An idle, discardable, resident and mapped object of \<open>n\<close> pages.\<close>

definition obj_pages :: "ulong \<Rightarrow> msm_gem_object" where
  "obj_pages n = \<lparr>base_size = push_bit 12 n, madv = WillingToDiscard, refcount = 0,
     resident = True, vaddr = True\<rparr>"

text \<open>The same object while it is pinned (reference count 1).\<close>

definition obj_pinned :: "ulong \<Rightarrow> msm_gem_object" where
  "obj_pinned n = (obj_pages n)\<lparr>refcount := 1\<rparr>"

text \<open>A device with the given lock owner and inactive collection.\<close>

definition priv_of :: "ctx option \<Rightarrow> msm_gem_object list \<Rightarrow> msm_drm_private" where
  "priv_of owner objs =
     \<lparr>struct_mutex = owner, inactive_list = objs, shrinker = Some 1, events = []\<rparr>"

text \<open>The inactive collection A (4 units), B (2 units), C (8 units), all purgeable.\<close>

definition objs_abc :: "msm_gem_object list" where
  "objs_abc = [obj_pages 4, obj_pages 2, obj_pages 8]"

text \<open>Twenty idle objects of one page, each with a virtual mapping.\<close>

definition objs_20 :: "msm_gem_object list" where
  "objs_20 = replicate 20 (obj_pages 1)"

text \<open>A hundred pinned objects of one page, then one idle object of one page.\<close>

definition objs_walk :: "msm_gem_object list" where
  "objs_walk = replicate 100 (obj_pinned 1) @ [obj_pages 1]"

text \<open>Two pinned objects.\<close>

definition objs_pinned2 :: "msm_gem_object list" where
  "objs_pinned2 = [obj_pinned 1, obj_pinned 2]"

text \<open>A device on which the shrinker was never set up.\<close>

definition priv_fresh :: msm_drm_private where
  "priv_fresh = \<lparr>struct_mutex = None, inactive_list = [], shrinker = None, events = []\<rparr>"

section \<open>Properties\<close>

subsection \<open>The lock guard and the epilogue\<close>

lemma lock_cases:
  "msm_gem_shrinker_lock cur priv =
     (case struct_mutex priv of
        None \<Rightarrow> (True, Some True, priv\<lparr>struct_mutex := Some cur\<rparr>)
      | Some owner \<Rightarrow> if owner = cur then (True, Some False, priv) else (False, None, priv))"
  by (simp add: msm_gem_shrinker_lock_def mutex_trylock_recursive_def split: option.splits)

lemma lock_granted_iff:
  "fst (msm_gem_shrinker_lock cur priv) = (struct_mutex priv = None \<or> struct_mutex priv = Some cur)"
  by (auto simp: lock_cases split: option.splits)

lemma not_granted:
  "\<not> fst (msm_gem_shrinker_lock cur priv) \<Longrightarrow>
   msm_gem_shrinker_lock cur priv = (False, None, priv)"
  by (auto simp: lock_cases split: option.splits)

text \<open>After a granted lock, the epilogue restores the lock to what it was at entry.\<close>

lemma lock_release:
  "msm_gem_shrinker_lock cur priv = (True, unlock, priv1) \<Longrightarrow>
   release unlock (priv1\<lparr>inactive_list := objs\<rparr>) = priv\<lparr>inactive_list := objs\<rparr>"
  by (auto simp: lock_cases release_def mutex_unlock_def split: option.splits if_splits)

lemma lock_release_same:
  "msm_gem_shrinker_lock cur priv = (True, unlock, priv1) \<Longrightarrow> release unlock priv1 = priv"
  by (auto simp: lock_cases release_def mutex_unlock_def split: option.splits if_splits)

lemma lock_inactive:
  "msm_gem_shrinker_lock cur priv = (g, unlock, priv1) \<Longrightarrow>
   inactive_list priv1 = inactive_list priv"
  by (auto simp: lock_cases split: option.splits if_splits)

subsection \<open>The primitives\<close>

lemma purge_size [simp]: "base_size (msm_gem_purge obj) = base_size obj"
  by (simp add: msm_gem_purge_def)

lemma purge_not_purgeable [simp]: "\<not> is_purgeable (msm_gem_purge obj)"
  by (simp add: msm_gem_purge_def is_purgeable_def)

lemma vunmap_not_vunmapable [simp]: "\<not> is_vunmapable (msm_gem_vunmap obj)"
  by (simp add: msm_gem_vunmap_def is_vunmapable_def)

lemma inactive_trace_purge [simp]: "inactive_list (trace_purge k f priv) = inactive_list priv"
  by (simp add: trace_purge_def)

lemma inactive_trace_purge_vmaps [simp]:
  "inactive_list (trace_purge_vmaps n priv) = inactive_list priv"
  by (simp add: trace_purge_vmaps_def)

subsection \<open>The loops\<close>

lemma count_loop_sum: "count_loop k c objs = c + purgeable_units k objs"
  by (induction objs arbitrary: c) (simp_all add: purgeable_units_def units_def add.assoc)

text \<open>
  The purge loop processes a prefix of the collection, whose length is \<open>scan_visited\<close>:
  it purges the eligible objects of the prefix and leaves the rest as it is.
\<close>

lemma scan_loop_visited:
  "scan_loop k nr f objs =
     (map (\<lambda>obj. if is_purgeable obj then msm_gem_purge obj else obj)
          (take (scan_visited k nr f objs) objs) @ drop (scan_visited k nr f objs) objs,
      f + purgeable_units k (take (scan_visited k nr f objs) objs))"
  by (induction objs arbitrary: f) (simp_all add: Let_def purgeable_units_def units_def add.assoc)

lemma scan_visited_le: "scan_visited k nr f objs \<le> length objs"
  by (induction objs arbitrary: f) simp_all

lemma scan_loop_length: "length (fst (scan_loop k nr f objs)) = length objs"
  using scan_visited_le [of k nr f objs] by (simp add: scan_loop_visited)

text \<open>Before every object the loop processes, the running total is below the budget.\<close>

lemma scan_visited_below:
  "j < scan_visited k nr f objs \<Longrightarrow> f + purgeable_units k (take j objs) < nr"
proof (induction objs arbitrary: f j)
  case Nil
  then show ?case by simp
next
  case (Cons obj rest)
  show ?case
  proof (cases j)
    case 0
    with Cons.prems show ?thesis
      by (simp add: purgeable_units_def split: if_splits)
  next
    case (Suc j')
    show ?thesis
    proof (cases "is_purgeable obj")
      case True
      with Suc Cons.prems
      have "j' < scan_visited k nr (f + units k obj) rest"
        by (simp add: units_def split: if_splits)
      from Cons.IH [OF this] Suc True show ?thesis
        by (simp add: purgeable_units_def add.assoc)
    next
      case False
      with Suc Cons.prems have "j' < scan_visited k nr f rest"
        by (simp split: if_splits)
      from Cons.IH [OF this] Suc False show ?thesis
        by (simp add: purgeable_units_def)
    qed
  qed
qed

text \<open>Where the loop stops before the end of the collection, the budget is met.\<close>

lemma scan_visited_stop:
  "scan_visited k nr f objs < length objs \<Longrightarrow>
   nr \<le> f + purgeable_units k (take (scan_visited k nr f objs) objs)"
  by (induction objs arbitrary: f)
    (auto simp: purgeable_units_def units_def simp flip: add.assoc)

lemma scan_loop_stops:
  assumes "K \<le> length objs" and "nr \<le> purgeable_units k (take K objs)"
  shows "scan_visited k nr 0 objs \<le> K"
proof (rule ccontr)
  assume "\<not> scan_visited k nr 0 objs \<le> K"
  then have "K < scan_visited k nr 0 objs" by simp
  from scan_visited_below [OF this] assms(2) show False by simp
qed

text \<open>Where the sum of the units does not overflow, the machine sum is the sum.\<close>

lemma purgeable_units_unat:
  "purgeable_units_nat k objs < 2 ^ 64 \<Longrightarrow>
   unat (purgeable_units k objs) = purgeable_units_nat k objs"
proof (induction objs)
  case Nil
  then show ?case by (simp add: purgeable_units_def purgeable_units_nat_def)
next
  case (Cons obj rest)
  show ?case
  proof (cases "is_purgeable obj")
    case True
    with Cons.prems have b: "unat (units k obj) + purgeable_units_nat k rest < 2 ^ 64"
      by (simp add: purgeable_units_nat_def)
    then have "purgeable_units_nat k rest < 2 ^ 64" by simp
    from Cons.IH [OF this] b True show ?thesis
      by (simp add: purgeable_units_def purgeable_units_nat_def unat_word_ariths)
  next
    case False
    with Cons show ?thesis
      by (simp add: purgeable_units_def purgeable_units_nat_def)
  qed
qed

subsection \<open>The entry points under a granted lock\<close>

lemma count_granted:
  assumes g: "fst (msm_gem_shrinker_lock cur priv)"
  shows "msm_gem_shrinker_count k cur priv = (purgeable_units k (inactive_list priv), priv)"
proof -
  obtain unlock priv1 where l: "msm_gem_shrinker_lock cur priv = (True, unlock, priv1)"
    using g by (cases "msm_gem_shrinker_lock cur priv") auto
  show ?thesis
    using lock_release_same [OF l] lock_inactive [OF l]
    by (simp add: msm_gem_shrinker_count_def l count_loop_sum)
qed

lemma scan_granted:
  assumes g: "fst (msm_gem_shrinker_lock cur priv)"
  shows "msm_gem_shrinker_scan k cur nr priv =
     (snd (scan_loop k nr 0 (inactive_list priv)),
      trace_purge k (snd (scan_loop k nr 0 (inactive_list priv)))
        (priv\<lparr>inactive_list := fst (scan_loop k nr 0 (inactive_list priv))\<rparr>))"
proof -
  obtain unlock priv1 where l: "msm_gem_shrinker_lock cur priv = (True, unlock, priv1)"
    using g by (cases "msm_gem_shrinker_lock cur priv") auto
  show ?thesis
    using lock_release [OF l] lock_inactive [OF l]
    by (simp add: msm_gem_shrinker_scan_def l split: prod.splits)
qed

lemma vmap_granted:
  assumes g: "fst (msm_gem_shrinker_lock cur priv)"
  shows "msm_gem_shrinker_vmap k cur acc priv =
     (NOTIFY_DONE k, acc + ucast (snd (vmap_loop 0 (inactive_list priv))),
      trace_purge_vmaps (snd (vmap_loop 0 (inactive_list priv)))
        (priv\<lparr>inactive_list := fst (vmap_loop 0 (inactive_list priv))\<rparr>))"
proof -
  obtain unlock priv1 where l: "msm_gem_shrinker_lock cur priv = (True, unlock, priv1)"
    using g by (cases "msm_gem_shrinker_lock cur priv") auto
  show ?thesis
    using lock_release [OF l] lock_inactive [OF l]
    by (simp add: msm_gem_shrinker_vmap_def l split: prod.splits)
qed

subsection \<open>Evaluation of the concrete states\<close>

lemma units_obj_pages_abc:
  "units k12 (obj_pages 4) = 4" "units k12 (obj_pages 2) = 2" "units k12 (obj_pages 8) = 8"
  by (simp_all add: units_def k12_def obj_pages_def)

lemma purgeable_obj_pages: "is_purgeable (obj_pages n)"
  by (simp add: is_purgeable_def obj_pages_def)

lemma granted_free: "fst (msm_gem_shrinker_lock cur (priv_of None objs))"
  by (simp add: lock_granted_iff priv_of_def)

lemma inactive_priv_of [simp]: "inactive_list (priv_of owner objs) = objs"
  by (simp add: priv_of_def)

subsection \<open>The unmap loop\<close>

lemma uint_step:
  fixes u :: uint
  assumes "unat u < 15"
  shows "unat (u + 1) = Suc (unat u)" and "(15 \<le> u + 1) = (unat u = 14)"
proof -
  have "unat u + unat (1::uint) < 2 ^ LENGTH(32)" using assms by simp
  then have "unat (u + 1) = unat u + unat (1::uint)"
    by (simp only: unat_add_lem [THEN iffD1])
  then show s: "unat (u + 1) = Suc (unat u)" by simp
  show "(15 \<le> u + 1) = (unat u = 14)"
    using assms by (auto simp: word_le_nat_alt s)
qed

lemma vunmap_first_0 [simp]: "vunmap_first 0 objs = objs"
  by (cases objs) simp_all

lemma vmap_loop_first:
  "unat u < 15 \<Longrightarrow>
   vmap_loop u objs =
     (vunmap_first (15 - unat u) objs,
      u + of_nat (min (15 - unat u) (length (filter is_vunmapable objs))))"
proof (induction objs arbitrary: u)
  case Nil
  then show ?case by simp
next
  case (Cons obj rest)
  obtain c where c: "15 - unat u = Suc c" "c = 14 - unat u"
    using Cons.prems by (cases "15 - unat u") auto
  show ?case
  proof (cases "is_vunmapable obj")
    case False
    with Cons.IH [OF Cons.prems] c show ?thesis by simp
  next
    case True
    show ?thesis
    proof (cases "unat u = 14")
      case True
      with \<open>is_vunmapable obj\<close> Cons.prems show ?thesis
        by (simp add: uint_step Let_def)
    next
      case False
      with Cons.prems have u': "unat (u + 1) < 15" by (simp add: uint_step)
      have m: "15 - unat (u + 1) = c" using c Cons.prems by (simp add: uint_step)
      from Cons.IH [OF u'] False \<open>is_vunmapable obj\<close> Cons.prems c m show ?thesis
        by (simp add: uint_step Let_def add.assoc)
    qed
  qed
qed

lemma vunmap_first_length [simp]: "length (vunmap_first n objs) = length objs"
  by (induction n objs rule: vunmap_first.induct) simp_all

lemma vunmap_first_remaining:
  "length (filter is_vunmapable (vunmap_first n objs))
     = length (filter is_vunmapable objs) - n"
  by (induction n objs rule: vunmap_first.induct) simp_all

lemma vunmap_changes:
  "is_vunmapable obj \<Longrightarrow> msm_gem_vunmap obj \<noteq> obj"
  "is_vunmapable obj \<Longrightarrow> obj \<noteq> msm_gem_vunmap obj"
  by (metis vunmap_not_vunmapable)+

lemma changed_Cons [simp]:
  "changed (a # as) (b # bs) = (if a \<noteq> b then Suc (changed as bs) else changed as bs)"
  by (simp add: changed_def)

lemma changed_same [simp]: "changed objs objs = 0"
  by (induction objs) (simp_all add: changed_def)

lemma changed_Nil [simp]: "changed [] objs = 0"
  by (simp add: changed_def)

lemma vunmap_first_changed:
  "changed objs (vunmap_first n objs) = min n (length (filter is_vunmapable objs))"
  by (induction n objs rule: vunmap_first.induct) (simp_all add: vunmap_changes)

lemma vunmap_first_nth:
  "i < length objs \<Longrightarrow>
   vunmap_first n objs ! i = objs ! i
   \<or> (is_vunmapable (objs ! i) \<and> vunmap_first n objs ! i = msm_gem_vunmap (objs ! i))"
proof (induction n objs arbitrary: i rule: vunmap_first.induct)
  case (1 n)
  then show ?case by simp
next
  case (2 obj rest)
  then show ?case by simp
next
  case (3 n obj rest)
  then show ?case by (cases i) auto
qed


lemma mutex_trace_purge_vmaps [simp]:
  "struct_mutex (trace_purge_vmaps n priv) = struct_mutex priv"
  by (simp add: trace_purge_vmaps_def)

lemma ucast_small:
  "n \<le> 15 \<Longrightarrow> (ucast (of_nat n :: uint) :: ulong) = of_nat n"
proof -
  assume "n \<le> 15"
  then have "n < 2 ^ 32" by simp
  then show ?thesis
    by (simp add: unsigned_of_nat take_bit_nat_eq_self)
qed

lemma vmap_granted_first:
  assumes g: "fst (msm_gem_shrinker_lock cur priv)"
  shows "msm_gem_shrinker_vmap k cur acc priv =
     (NOTIFY_DONE k, acc + of_nat (min 15 (vunmapable_count priv)),
      trace_purge_vmaps (of_nat (min 15 (vunmapable_count priv)))
        (priv\<lparr>inactive_list := vunmap_first 15 (inactive_list priv)\<rparr>))"
proof -
  have "vmap_loop 0 (inactive_list priv) =
    (vunmap_first 15 (inactive_list priv), of_nat (min 15 (vunmapable_count priv)))"
    using vmap_loop_first [of 0 "inactive_list priv"] by (simp add: vunmapable_count_def)
  then show ?thesis
    by (simp add: vmap_granted [OF g] ucast_small)
qed

lemma vmap_pass_granted:
  assumes g: "fst (msm_gem_shrinker_lock cur priv)"
  shows "fst (msm_gem_shrinker_lock cur (snd (vmap_pass k cur (acc, priv))))"
    and "vunmapable_count (snd (vmap_pass k cur (acc, priv))) = vunmapable_count priv - 15"
    and "fst (vmap_pass k cur (acc, priv)) = acc + of_nat (min 15 (vunmapable_count priv))"
  using g
  by (simp_all add: vmap_pass_def vmap_granted_first [OF g] lock_granted_iff
      vunmapable_count_def vunmap_first_remaining)

lemma vmap_passes:
  assumes g: "fst (msm_gem_shrinker_lock cur priv)"
  shows "fst (msm_gem_shrinker_lock cur (snd ((vmap_pass k cur ^^ n) (acc, priv))))
    \<and> vunmapable_count (snd ((vmap_pass k cur ^^ n) (acc, priv)))
        = vunmapable_count priv - 15 * n
    \<and> fst ((vmap_pass k cur ^^ n) (acc, priv))
        = acc + of_nat (min (15 * n) (vunmapable_count priv))"
proof (induction n)
  case 0
  then show ?case using g by simp
next
  case (Suc n)
  obtain acc' priv' where p: "(vmap_pass k cur ^^ n) (acc, priv) = (acc', priv')"
    by (cases "(vmap_pass k cur ^^ n) (acc, priv)")
  with Suc have g': "fst (msm_gem_shrinker_lock cur priv')"
    and c: "vunmapable_count priv' = vunmapable_count priv - 15 * n"
    and a: "acc' = acc + of_nat (min (15 * n) (vunmapable_count priv))"
    by simp_all
  have "min (15 * n) (vunmapable_count priv) + min 15 (vunmapable_count priv - 15 * n)
    = min (15 * Suc n) (vunmapable_count priv)"
    by simp
  then have "(of_nat (min (15 * n) (vunmapable_count priv)) :: ulong)
     + of_nat (min 15 (vunmapable_count priv - 15 * n))
    = of_nat (min (15 * Suc n) (vunmapable_count priv))"
    by (simp only: of_nat_add [symmetric])
  with vmap_pass_granted [OF g', of k acc'] c a p show ?case
    by (simp add: add.assoc)
qed


lemma vunmapable_obj_pages: "is_vunmapable (obj_pages n)"
  by (simp add: is_vunmapable_def obj_pages_def)

lemma count_objs_20: "vunmapable_count (priv_of owner objs_20) = 20"
  by (simp add: vunmapable_count_def objs_20_def vunmapable_obj_pages)

subsection \<open>Objects with a reference count\<close>

lemma pinned_not_eligible:
  "0 < refcount obj \<Longrightarrow> \<not> is_purgeable obj \<and> \<not> is_vunmapable obj"
  by (simp add: is_purgeable_def is_vunmapable_def)

lemma count_loop_unpinned:
  "count_loop k c (filter (\<lambda>obj. refcount obj = 0) objs) = count_loop k c objs"
  by (induction objs arbitrary: c) (auto simp: is_purgeable_def)

lemma scan_loop_unpinned:
  "snd (scan_loop k nr f (filter (\<lambda>obj. refcount obj = 0) objs)) = snd (scan_loop k nr f objs)"
proof (induction objs arbitrary: f)
  case Nil
  then show ?case by simp
next
  case (Cons obj rest)
  show ?case
  proof (cases "nr \<le> f")
    case True
    then show ?thesis
      by (cases "filter (\<lambda>obj. refcount obj = 0) rest") simp_all
  next
    case False
    with Cons.IH show ?thesis
      by (simp add: Let_def is_purgeable_def case_prod_beta)
  qed
qed

lemma vmap_loop_unpinned:
  "snd (vmap_loop u (filter (\<lambda>obj. refcount obj = 0) objs)) = snd (vmap_loop u objs)"
  by (induction objs arbitrary: u) (simp_all add: Let_def is_vunmapable_def case_prod_beta)

lemma scan_loop_nth_ineligible:
  "i < length objs \<Longrightarrow> \<not> is_purgeable (objs ! i) \<Longrightarrow> fst (scan_loop k nr f objs) ! i = objs ! i"
proof (induction objs arbitrary: f i)
  case Nil
  then show ?case by simp
next
  case (Cons obj rest)
  then show ?case
    by (cases i) (simp_all add: Let_def case_prod_beta)
qed

lemma vmap_loop_nth_ineligible:
  "i < length objs \<Longrightarrow> \<not> is_vunmapable (objs ! i) \<Longrightarrow> fst (vmap_loop u objs) ! i = objs ! i"
proof (induction objs arbitrary: u i)
  case Nil
  then show ?case by simp
next
  case (Cons obj rest)
  then show ?case
    by (cases i) (simp_all add: Let_def case_prod_beta)
qed

lemma lock_unpinned:
  "msm_gem_shrinker_lock cur (unpinned priv) =
     (fst (msm_gem_shrinker_lock cur priv), fst (snd (msm_gem_shrinker_lock cur priv)),
      unpinned (snd (snd (msm_gem_shrinker_lock cur priv))))"
  by (simp add: lock_cases unpinned_def split: option.splits)

lemma granted_unpinned:
  "fst (msm_gem_shrinker_lock cur (unpinned priv)) = fst (msm_gem_shrinker_lock cur priv)"
  by (simp add: lock_unpinned)

lemma inactive_unpinned [simp]:
  "inactive_list (unpinned priv) = filter (\<lambda>obj. refcount obj = 0) (inactive_list priv)"
  by (simp add: unpinned_def)

lemma purgeable_units_unpinned:
  "purgeable_units k (filter (\<lambda>obj. refcount obj = 0) objs) = purgeable_units k objs"
  using count_loop_unpinned [of k 0 objs] by (simp add: count_loop_sum)

subsection \<open>The last purge of a pass\<close>

lemma scan_loop_last:
  "(fst (scan_loop k nr f objs) = objs \<and> snd (scan_loop k nr f objs) = f)
   \<or> (\<exists>i < length objs. is_purgeable (objs ! i)
        \<and> fst (scan_loop k nr f objs) ! i = msm_gem_purge (objs ! i)
        \<and> drop (Suc i) (fst (scan_loop k nr f objs)) = drop (Suc i) objs
        \<and> f + purgeable_units k (take i objs) < nr
        \<and> snd (scan_loop k nr f objs) = f + purgeable_units k (take i objs) + units k (objs ! i))"
proof (induction objs arbitrary: f)
  case Nil
  then show ?case by simp
next
  case (Cons obj rest)
  show ?case
  proof (cases "nr \<le> f")
    case True
    then show ?thesis by simp
  next
    case below: False
    show ?thesis
    proof (cases "is_purgeable obj")
      case False
      from Cons.IH [of f] show ?thesis
      proof
        assume "fst (scan_loop k nr f rest) = rest \<and> snd (scan_loop k nr f rest) = f"
        with below False show ?thesis by (simp add: case_prod_beta)
      next
        assume "\<exists>i < length rest. is_purgeable (rest ! i)
          \<and> fst (scan_loop k nr f rest) ! i = msm_gem_purge (rest ! i)
          \<and> drop (Suc i) (fst (scan_loop k nr f rest)) = drop (Suc i) rest
          \<and> f + purgeable_units k (take i rest) < nr
          \<and> snd (scan_loop k nr f rest) = f + purgeable_units k (take i rest) + units k (rest ! i)"
        then obtain i where i: "i < length rest" "is_purgeable (rest ! i)"
          "fst (scan_loop k nr f rest) ! i = msm_gem_purge (rest ! i)"
          "drop (Suc i) (fst (scan_loop k nr f rest)) = drop (Suc i) rest"
          "f + purgeable_units k (take i rest) < nr"
          "snd (scan_loop k nr f rest) = f + purgeable_units k (take i rest) + units k (rest ! i)"
          by blast
        with below False have "Suc i < length (obj # rest) \<and> is_purgeable ((obj # rest) ! Suc i)
          \<and> fst (scan_loop k nr f (obj # rest)) ! Suc i = msm_gem_purge ((obj # rest) ! Suc i)
          \<and> drop (Suc (Suc i)) (fst (scan_loop k nr f (obj # rest))) = drop (Suc (Suc i)) (obj # rest)
          \<and> f + purgeable_units k (take (Suc i) (obj # rest)) < nr
          \<and> snd (scan_loop k nr f (obj # rest))
              = f + purgeable_units k (take (Suc i) (obj # rest)) + units k ((obj # rest) ! Suc i)"
          by (simp add: case_prod_beta purgeable_units_def)
        then show ?thesis by blast
      qed
    next
      case True
      let ?f = "f + units k obj"
      have step: "scan_loop k nr f (obj # rest)
        = (msm_gem_purge obj # fst (scan_loop k nr ?f rest), snd (scan_loop k nr ?f rest))"
        using below True by (simp add: case_prod_beta Let_def units_def)
      from Cons.IH [of ?f] show ?thesis
      proof
        assume "fst (scan_loop k nr ?f rest) = rest \<and> snd (scan_loop k nr ?f rest) = ?f"
        with below True have "0 < length (obj # rest) \<and> is_purgeable ((obj # rest) ! 0)
          \<and> fst (scan_loop k nr f (obj # rest)) ! 0 = msm_gem_purge ((obj # rest) ! 0)
          \<and> drop (Suc 0) (fst (scan_loop k nr f (obj # rest))) = drop (Suc 0) (obj # rest)
          \<and> f + purgeable_units k (take 0 (obj # rest)) < nr
          \<and> snd (scan_loop k nr f (obj # rest))
              = f + purgeable_units k (take 0 (obj # rest)) + units k ((obj # rest) ! 0)"
          by (simp add: step purgeable_units_def del: scan_loop.simps)
        then show ?thesis by blast
      next
        assume "\<exists>i < length rest. is_purgeable (rest ! i)
          \<and> fst (scan_loop k nr ?f rest) ! i = msm_gem_purge (rest ! i)
          \<and> drop (Suc i) (fst (scan_loop k nr ?f rest)) = drop (Suc i) rest
          \<and> ?f + purgeable_units k (take i rest) < nr
          \<and> snd (scan_loop k nr ?f rest) = ?f + purgeable_units k (take i rest) + units k (rest ! i)"
        then obtain i where i: "i < length rest" "is_purgeable (rest ! i)"
          "fst (scan_loop k nr ?f rest) ! i = msm_gem_purge (rest ! i)"
          "drop (Suc i) (fst (scan_loop k nr ?f rest)) = drop (Suc i) rest"
          "?f + purgeable_units k (take i rest) < nr"
          "snd (scan_loop k nr ?f rest) = ?f + purgeable_units k (take i rest) + units k (rest ! i)"
          by blast
        with True have "Suc i < length (obj # rest) \<and> is_purgeable ((obj # rest) ! Suc i)
          \<and> fst (scan_loop k nr f (obj # rest)) ! Suc i = msm_gem_purge ((obj # rest) ! Suc i)
          \<and> drop (Suc (Suc i)) (fst (scan_loop k nr f (obj # rest))) = drop (Suc (Suc i)) (obj # rest)
          \<and> f + purgeable_units k (take (Suc i) (obj # rest)) < nr
          \<and> snd (scan_loop k nr f (obj # rest))
              = f + purgeable_units k (take (Suc i) (obj # rest)) + units k ((obj # rest) ! Suc i)"
          by (simp add: step purgeable_units_def add.assoc del: scan_loop.simps)
        then show ?thesis by blast
      qed
    qed
  qed
qed

lemma scan_loop_short:
  assumes "snd (scan_loop k nr 0 objs) < nr"
  shows "scan_visited k nr 0 objs = length objs"
proof (rule ccontr)
  assume "scan_visited k nr 0 objs \<noteq> length objs"
  with scan_visited_le [of k nr 0 objs] have "scan_visited k nr 0 objs < length objs" by simp
  from scan_visited_stop [OF this] assms show False
    by (simp add: scan_loop_visited)
qed

lemma purge_all_none:
  "filter is_purgeable
     (map (\<lambda>obj. if is_purgeable obj then msm_gem_purge obj else obj) objs) = []"
  by (induction objs) simp_all

lemma scan_loop_exhausted:
  assumes "snd (scan_loop k nr 0 objs) < nr"
  shows "filter is_purgeable (fst (scan_loop k nr 0 objs)) = []"
    and "snd (scan_loop k nr 0 objs) = purgeable_units k objs"
  using scan_loop_short [OF assms]
  by (simp_all add: scan_loop_visited purge_all_none)

lemma scan_abc_5:
  "scan_loop k12 5 0 objs_abc = ([msm_gem_purge (obj_pages 4), msm_gem_purge (obj_pages 2), obj_pages 8], 6)"
  using units_obj_pages_abc by (simp add: objs_abc_def purgeable_obj_pages units_def)

lemma scan_abc_20:
  "scan_loop k12 20 0 objs_abc
     = ([msm_gem_purge (obj_pages 4), msm_gem_purge (obj_pages 2), msm_gem_purge (obj_pages 8)], 14)"
  using units_obj_pages_abc by (simp add: objs_abc_def purgeable_obj_pages units_def)

subsection \<open>The number of objects a pass tests\<close>

lemma vmap_loop_visited:
  "fst (vmap_loop u objs) =
     map (\<lambda>obj. if is_vunmapable obj then msm_gem_vunmap obj else obj)
         (take (vmap_visited u objs) objs) @ drop (vmap_visited u objs) objs"
  by (induction objs arbitrary: u) (simp_all add: Let_def case_prod_beta)

lemma vmap_visited_le: "vmap_visited u objs \<le> length objs"
  by (induction objs arbitrary: u) simp_all

lemma vmap_visited_stops:
  "unat u < 15 \<Longrightarrow> K \<le> length objs \<Longrightarrow>
   15 - unat u \<le> length (filter is_vunmapable (take K objs)) \<Longrightarrow>
   vmap_visited u objs \<le> K"
proof (induction objs arbitrary: u K)
  case Nil
  then show ?case by simp
next
  case (Cons obj rest)
  from Cons.prems obtain K' where K: "K = Suc K'"
    by (cases K) auto
  show ?case
  proof (cases "is_vunmapable obj")
    case False
    with Cons.prems K Cons.IH [of u K'] show ?thesis by simp
  next
    case True
    show ?thesis
    proof (cases "unat u = 14")
      case True
      with \<open>is_vunmapable obj\<close> Cons.prems K show ?thesis
        by (simp add: uint_step)
    next
      case False
      with Cons.prems have u': "unat (u + 1) < 15" by (simp add: uint_step)
      from Cons.prems K True have "15 - unat (u + 1) \<le> length (filter is_vunmapable (take K' rest))"
        by (simp add: uint_step)
      from Cons.IH [OF u' _ this] Cons.prems K True False show ?thesis
        by (simp add: uint_step)
    qed
  qed
qed

lemma vmap_visited_all:
  "unat u < 15 \<Longrightarrow> length (filter is_vunmapable objs) < 15 - unat u \<Longrightarrow>
   vmap_visited u objs = length objs"
proof (induction objs arbitrary: u)
  case Nil
  then show ?case by simp
next
  case (Cons obj rest)
  show ?case
  proof (cases "is_vunmapable obj")
    case False
    with Cons show ?thesis by simp
  next
    case True
    with Cons.prems have u': "unat (u + 1) < 15" and n: "unat u \<noteq> 14"
      by (simp_all add: uint_step)
    from Cons.prems True have "length (filter is_vunmapable rest) < 15 - unat (u + 1)"
      by (simp add: uint_step)
    from Cons.IH [OF u' this] True Cons.prems n show ?thesis
      by (simp add: uint_step)
  qed
qed

lemma scan_visited_all:
  assumes "\<forall>K < length objs. purgeable_units k (take K objs) < nr"
  shows "scan_visited k nr 0 objs = length objs"
proof (rule ccontr)
  assume "scan_visited k nr 0 objs \<noteq> length objs"
  with scan_visited_le [of k nr 0 objs] have l: "scan_visited k nr 0 objs < length objs"
    by simp
  from assms l have "purgeable_units k (take (scan_visited k nr 0 objs) objs) < nr"
    by blast
  with scan_visited_stop [OF l] show False
    by simp
qed

lemma scan_visited_pinned:
  "\<not> nr \<le> f \<Longrightarrow>
   scan_visited k nr f (replicate n (obj_pinned m) @ rest) = n + scan_visited k nr f rest"
  by (induction n) (simp_all add: is_purgeable_def obj_pinned_def)

lemma vmap_visited_pinned:
  "vmap_visited u (replicate n (obj_pinned m) @ rest) = n + vmap_visited u rest"
  by (induction n) (simp_all add: is_vunmapable_def obj_pinned_def)

lemma scan_loop_pinned:
  "\<not> nr \<le> f \<Longrightarrow>
   scan_loop k nr f (replicate n (obj_pinned m) @ rest)
     = (replicate n (obj_pinned m) @ fst (scan_loop k nr f rest), snd (scan_loop k nr f rest))"
  by (induction n) (simp_all add: is_purgeable_def obj_pinned_def case_prod_beta)

lemma vmap_loop_pinned:
  "vmap_loop u (replicate n (obj_pinned m) @ rest)
     = (replicate n (obj_pinned m) @ fst (vmap_loop u rest), snd (vmap_loop u rest))"
  by (induction n) (simp_all add: is_vunmapable_def obj_pinned_def case_prod_beta)

lemma pinned_obj_pinned: "\<not> is_purgeable (obj_pinned n)" "\<not> is_vunmapable (obj_pinned n)"
  by (simp_all add: is_purgeable_def is_vunmapable_def obj_pinned_def)

lemma tested_granted:
  assumes g: "fst (msm_gem_shrinker_lock cur priv)"
  shows "scan_tested k cur nr priv = scan_visited k nr 0 (inactive_list priv)"
    and "vmap_tested cur priv = vmap_visited 0 (inactive_list priv)"
proof -
  obtain unlock priv1 where l: "msm_gem_shrinker_lock cur priv = (True, unlock, priv1)"
    using g by (cases "msm_gem_shrinker_lock cur priv") auto
  show "scan_tested k cur nr priv = scan_visited k nr 0 (inactive_list priv)"
    using lock_inactive [OF l] by (simp add: scan_tested_def l)
  show "vmap_tested cur priv = vmap_visited 0 (inactive_list priv)"
    using lock_inactive [OF l] by (simp add: vmap_tested_def l)
qed

lemma tested_refused:
  assumes "\<not> fst (msm_gem_shrinker_lock cur priv)"
  shows "scan_tested k cur nr priv = 0" and "vmap_tested cur priv = 0"
  using not_granted [OF assms] by (simp_all add: scan_tested_def vmap_tested_def)

lemma tested_le_visited:
  "scan_tested k cur nr priv \<le> scan_visited k nr 0 (inactive_list priv)"
  "vmap_tested cur priv \<le> vmap_visited 0 (inactive_list priv)"
  by (cases "fst (msm_gem_shrinker_lock cur priv)"; simp add: tested_granted tested_refused)+

lemma vmap_visited_below:
  "unat u < 15 \<Longrightarrow> j < vmap_visited u objs \<Longrightarrow>
   length (filter is_vunmapable (take j objs)) < 15 - unat u"
proof (induction objs arbitrary: u j)
  case Nil
  then show ?case by simp
next
  case (Cons obj rest)
  show ?case
  proof (cases j)
    case 0
    with Cons.prems show ?thesis by simp
  next
    case (Suc j')
    show ?thesis
    proof (cases "is_vunmapable obj")
      case False
      with Cons.prems Suc have "j' < vmap_visited u rest" by simp
      from Cons.IH [OF Cons.prems(1) this] False Suc show ?thesis by simp
    next
      case True
      with Cons.prems Suc have n: "unat u \<noteq> 14"
        by (auto simp: uint_step)
      with Cons.prems have u': "unat (u + 1) < 15" by (simp add: uint_step)
      from Cons.prems Suc True n have "j' < vmap_visited (u + 1) rest"
        by (simp add: uint_step)
      from Cons.IH [OF u' this] True Suc Cons.prems show ?thesis
        by (simp add: uint_step)
    qed
  qed
qed

lemma vmap_visited_stop:
  "unat u < 15 \<Longrightarrow> vmap_visited u objs < length objs \<Longrightarrow>
   length (filter is_vunmapable (take (vmap_visited u objs) objs)) = 15 - unat u"
proof (induction objs arbitrary: u)
  case Nil
  then show ?case by simp
next
  case (Cons obj rest)
  show ?case
  proof (cases "is_vunmapable obj")
    case False
    with Cons.prems have "vmap_visited u rest < length rest" by simp
    from Cons.IH [OF Cons.prems(1) this] False show ?thesis by simp
  next
    case True
    show ?thesis
    proof (cases "unat u = 14")
      case True
      with \<open>is_vunmapable obj\<close> Cons.prems show ?thesis
        by (simp add: uint_step)
    next
      case False
      with Cons.prems have u': "unat (u + 1) < 15" by (simp add: uint_step)
      from Cons.prems True False have "vmap_visited (u + 1) rest < length rest"
        by (simp add: uint_step)
      from Cons.IH [OF u' this] True False Cons.prems show ?thesis
        by (simp add: uint_step)
    qed
  qed
qed


section \<open>The claims\<close>

text \<open>
  C1. Whenever the storage-purge pass \<^verbatim>\<open>msm_gem_shrinker_scan\<close> acquires the lock, the
  objects of the inactive collection are considered in order and the pass stops as soon
  as the running total reaches the budget: if the partial sum before object \<open>K\<close> (the
  units of the purge-eligible objects among the first \<open>K\<close>) is at least the requested
  budget, then object \<open>K\<close> and every later object are left as they were. In particular,
  on the collection A (4 units), B (2 units), C (8 units), all purgeable, a scan with
  budget 5 purges A and B, leaves C and returns 6.
\<close>

theorem scan_budget_early_exit:
  "(fst (msm_gem_shrinker_lock cur priv) \<longrightarrow>
      (\<forall>K \<le> length (inactive_list priv).
         nr \<le> purgeable_units k (take K (inactive_list priv)) \<longrightarrow>
         drop K (inactive_list (snd (msm_gem_shrinker_scan k cur nr priv)))
           = drop K (inactive_list priv)))
   \<and> (fst (msm_gem_shrinker_lock cur priv) \<and> inactive_list priv = [A, B, C]
        \<and> is_purgeable A \<and> is_purgeable B \<and> is_purgeable C
        \<and> units k A = 4 \<and> units k B = 2 \<and> units k C = 8 \<longrightarrow>
      fst (msm_gem_shrinker_scan k cur 5 priv) = 6
      \<and> inactive_list (snd (msm_gem_shrinker_scan k cur 5 priv))
          = [msm_gem_purge A, msm_gem_purge B, C])"
proof (intro conjI impI allI)
  fix K
  assume g: "fst (msm_gem_shrinker_lock cur priv)"
    and K: "K \<le> length (inactive_list priv)"
    and b: "nr \<le> purgeable_units k (take K (inactive_list priv))"
  let ?n = "scan_visited k nr 0 (inactive_list priv)"
  have n: "?n \<le> K" using K b by (rule scan_loop_stops)
  have "drop K (fst (scan_loop k nr 0 (inactive_list priv))) = drop K (inactive_list priv)"
    using n K by (simp add: scan_loop_visited min_absorb2)
  then show "drop K (inactive_list (snd (msm_gem_shrinker_scan k cur nr priv)))
    = drop K (inactive_list priv)"
    by (simp add: scan_granted [OF g])
next
  assume a: "fst (msm_gem_shrinker_lock cur priv) \<and> inactive_list priv = [A, B, C]
        \<and> is_purgeable A \<and> is_purgeable B \<and> is_purgeable C
        \<and> units k A = 4 \<and> units k B = 2 \<and> units k C = 8"
  then have g: "fst (msm_gem_shrinker_lock cur priv)" by simp
  have l: "scan_loop k 5 0 [A, B, C] = ([msm_gem_purge A, msm_gem_purge B, C], 6)"
    using a by (simp add: units_def)
  show "fst (msm_gem_shrinker_scan k cur 5 priv) = 6"
    using a l by (simp add: scan_granted [OF g])
  show "inactive_list (snd (msm_gem_shrinker_scan k cur 5 priv))
          = [msm_gem_purge A, msm_gem_purge B, C]"
    using a l by (simp add: scan_granted [OF g])
qed

theorem scan_budget_early_exit_witness:
  "fst (msm_gem_shrinker_lock 0 (priv_of None objs_abc))
   \<and> 2 \<le> length (inactive_list (priv_of None objs_abc))
   \<and> 5 \<le> purgeable_units k12 (take 2 (inactive_list (priv_of None objs_abc)))
   \<and> drop 2 (inactive_list (snd (msm_gem_shrinker_scan k12 0 5 (priv_of None objs_abc))))
       = [obj_pages 8]
   \<and> fst (msm_gem_shrinker_scan k12 0 5 (priv_of None objs_abc)) = 6
   \<and> inactive_list (snd (msm_gem_shrinker_scan k12 0 5 (priv_of None objs_abc)))
       = [msm_gem_purge (obj_pages 4), msm_gem_purge (obj_pages 2), obj_pages 8]"
proof -
  have g: "fst (msm_gem_shrinker_lock 0 (priv_of None objs_abc))"
    by (rule granted_free)
  have b: "5 \<le> purgeable_units k12 (take 2 (inactive_list (priv_of None objs_abc)))"
    by (simp add: purgeable_units_def objs_abc_def purgeable_obj_pages units_obj_pages_abc)
  have d: "drop 2 objs_abc = [obj_pages 8]" "2 \<le> length objs_abc"
    by (simp_all add: objs_abc_def)
  from scan_budget_early_exit
    [of 0 "priv_of None objs_abc" 5 k12 "obj_pages 4" "obj_pages 2" "obj_pages 8"]
  show ?thesis
    using g b d by (simp add: purgeable_obj_pages units_obj_pages_abc objs_abc_def)
qed

text \<open>
  C2. The lock guard \<^verbatim>\<open>msm_gem_shrinker_lock\<close> has a three-way contract. On a free lock
  it acquires it and reports granted with \<^verbatim>\<open>*unlock = true\<close>; on a lock the calling
  context already holds it succeeds without acquiring again (the state is unchanged) and
  reports granted with \<^verbatim>\<open>*unlock = false\<close>; on a lock held by a different context it
  returns false at once, leaving the state and \<^verbatim>\<open>*unlock\<close> alone. The three lock states
  are all there are: the guard grants exactly on the first two, and asks the caller to
  release exactly on the first.
\<close>

theorem lock_three_way:
  "(struct_mutex priv = None \<longrightarrow>
      msm_gem_shrinker_lock cur priv = (True, Some True, priv\<lparr>struct_mutex := Some cur\<rparr>))
   \<and> (struct_mutex priv = Some cur \<longrightarrow>
      msm_gem_shrinker_lock cur priv = (True, Some False, priv))
   \<and> (\<forall>other. struct_mutex priv = Some other \<and> other \<noteq> cur \<longrightarrow>
      msm_gem_shrinker_lock cur priv = (False, None, priv))
   \<and> fst (msm_gem_shrinker_lock cur priv)
       = (struct_mutex priv = None \<or> struct_mutex priv = Some cur)
   \<and> (fst (snd (msm_gem_shrinker_lock cur priv)) = Some True) = (struct_mutex priv = None)"
  by (auto simp: lock_cases split: option.splits)

theorem lock_three_way_witness:
  "msm_gem_shrinker_lock 1 (priv_of None []) = (True, Some True, priv_of (Some 1) [])
   \<and> msm_gem_shrinker_lock 1 (priv_of (Some 1) []) = (True, Some False, priv_of (Some 1) [])
   \<and> msm_gem_shrinker_lock 1 (priv_of (Some 2) []) = (False, None, priv_of (Some 2) [])"
  using lock_three_way [of "priv_of None []" 1] lock_three_way [of "priv_of (Some 1) []" 1]
    lock_three_way [of "priv_of (Some 2) []" 1]
  by (simp add: priv_of_def)

text \<open>
  C5. When the global lock is held by a different context, every entry point returns its
  no-op result and the state it returns is the state it was given (objects, collection,
  lock and event log): the capacity estimator returns 0, the storage-purge pass returns
  \<^verbatim>\<open>SHRINK_STOP\<close>, and the mapping-unmap pass returns \<^verbatim>\<open>NOTIFY_DONE\<close> with the
  accumulator as it was. The entry points are total functions that go through the
  non-blocking try-lock only, so none of them waits for the lock.
\<close>

theorem contention_fail_fast:
  assumes "struct_mutex priv = Some other" and "other \<noteq> cur"
  shows "msm_gem_shrinker_count k cur priv = (0, priv)
    \<and> msm_gem_shrinker_scan k cur nr priv = (SHRINK_STOP k, priv)
    \<and> msm_gem_shrinker_vmap k cur acc priv = (NOTIFY_DONE k, acc, priv)"
proof -
  have "msm_gem_shrinker_lock cur priv = (False, None, priv)"
    using assms by (simp add: lock_cases)
  then show ?thesis
    by (simp add: msm_gem_shrinker_count_def msm_gem_shrinker_scan_def
        msm_gem_shrinker_vmap_def)
qed

theorem contention_fail_fast_witness:
  "struct_mutex (priv_of (Some 2) objs_abc) = Some 2 \<and> (2::nat) \<noteq> 1
   \<and> msm_gem_shrinker_count k12 1 (priv_of (Some 2) objs_abc) = (0, priv_of (Some 2) objs_abc)
   \<and> msm_gem_shrinker_scan k12 1 5 (priv_of (Some 2) objs_abc)
       = (- 1, priv_of (Some 2) objs_abc)
   \<and> msm_gem_shrinker_vmap k12 1 7 (priv_of (Some 2) objs_abc)
       = (0, 7, priv_of (Some 2) objs_abc)"
proof -
  have h: "struct_mutex (priv_of (Some 2) objs_abc) = Some 2" "(2::nat) \<noteq> 1"
    by (simp_all add: priv_of_def)
  from contention_fail_fast [OF h, of k12 5 7] h show ?thesis
    by (simp add: k12_def)
qed

text \<open>
  C6. In every state in which the lock guard grants access, the capacity estimator
  \<^verbatim>\<open>msm_gem_shrinker_count\<close> returns the sum, over the objects of the inactive
  collection that satisfy the purge-eligibility predicate, of \<^verbatim>\<open>size >> PAGE_SHIFT\<close>;
  when the lock is not granted it returns 0. The sum is the \<^verbatim>\<open>unsigned long\<close> sum, and
  it is the sum of the natural numbers whenever that one fits in an \<^verbatim>\<open>unsigned long\<close>.
\<close>

theorem count_is_purgeable_sum:
  "fst (msm_gem_shrinker_count k cur priv) =
     (if fst (msm_gem_shrinker_lock cur priv)
      then sum_list (map (\<lambda>obj. drop_bit (PAGE_SHIFT k) (base_size obj))
             (filter is_purgeable (inactive_list priv)))
      else 0)
   \<and> (fst (msm_gem_shrinker_lock cur priv)
        \<and> sum_list (map (\<lambda>obj. unat (drop_bit (PAGE_SHIFT k) (base_size obj)))
             (filter is_purgeable (inactive_list priv))) < 2 ^ 64 \<longrightarrow>
      unat (fst (msm_gem_shrinker_count k cur priv)) =
        sum_list (map (\<lambda>obj. unat (drop_bit (PAGE_SHIFT k) (base_size obj)))
             (filter is_purgeable (inactive_list priv))))"
proof (intro conjI impI)
  show "fst (msm_gem_shrinker_count k cur priv) =
     (if fst (msm_gem_shrinker_lock cur priv)
      then sum_list (map (\<lambda>obj. drop_bit (PAGE_SHIFT k) (base_size obj))
             (filter is_purgeable (inactive_list priv)))
      else 0)"
  proof (cases "fst (msm_gem_shrinker_lock cur priv)")
    case True
    then show ?thesis
      by (simp add: count_granted purgeable_units_def units_def [abs_def])
  next
    case False
    from not_granted [OF this] False show ?thesis
      by (simp add: msm_gem_shrinker_count_def)
  qed
next
  assume a: "fst (msm_gem_shrinker_lock cur priv)
        \<and> sum_list (map (\<lambda>obj. unat (drop_bit (PAGE_SHIFT k) (base_size obj)))
             (filter is_purgeable (inactive_list priv))) < 2 ^ 64"
  then have "purgeable_units_nat k (inactive_list priv) < 2 ^ 64"
    by (simp add: purgeable_units_nat_def units_def [abs_def])
  from purgeable_units_unat [OF this] a
  show "unat (fst (msm_gem_shrinker_count k cur priv)) =
        sum_list (map (\<lambda>obj. unat (drop_bit (PAGE_SHIFT k) (base_size obj)))
             (filter is_purgeable (inactive_list priv)))"
    by (simp add: count_granted purgeable_units_nat_def units_def [abs_def])
qed

theorem count_is_purgeable_sum_witness:
  "fst (msm_gem_shrinker_count k12 1 (priv_of None (obj_pinned 3 # objs_abc))) = 14
   \<and> fst (msm_gem_shrinker_count k12 1 (priv_of (Some 1) (obj_pinned 3 # objs_abc))) = 14
   \<and> fst (msm_gem_shrinker_count k12 1 (priv_of (Some 2) (obj_pinned 3 # objs_abc))) = 0
   \<and> unat (fst (msm_gem_shrinker_count k12 1 (priv_of None (obj_pinned 3 # objs_abc)))) = 14"
  using count_is_purgeable_sum [of k12 1 "priv_of None (obj_pinned 3 # objs_abc)"]
    count_is_purgeable_sum [of k12 1 "priv_of (Some 1) (obj_pinned 3 # objs_abc)"]
    count_is_purgeable_sum [of k12 1 "priv_of (Some 2) (obj_pinned 3 # objs_abc)"]
  by (simp add: lock_granted_iff priv_of_def objs_abc_def obj_pinned_def obj_pages_def
      is_purgeable_def k12_def)

text \<open>
  C7. The capacity estimator \<^verbatim>\<open>msm_gem_shrinker_count\<close> is pure with respect to the
  state: in every state and for every caller, the state it leaves is the state it was
  given. No attribute of a tracked object and no position of the inactive collection
  changes, nothing is logged, and the lock it may take in between is released again.
\<close>

theorem count_is_pure:
  "snd (msm_gem_shrinker_count k cur priv) = priv"
proof (cases "fst (msm_gem_shrinker_lock cur priv)")
  case True
  then show ?thesis by (simp add: count_granted)
next
  case False
  from not_granted [OF this] show ?thesis
    by (simp add: msm_gem_shrinker_count_def)
qed

text \<open>
  C10. When \<^verbatim>\<open>msm_gem_shrinker_cleanup\<close> runs on a device whose shrinker pointer is
  null, it calls neither \<^verbatim>\<open>unregister_vmap_purge_notifier\<close> nor \<^verbatim>\<open>shrinker_free\<close>,
  raises no warning and leaves the state as it was. That is the state a failed
  \<^verbatim>\<open>msm_gem_shrinker_init\<close> leaves (the allocation returned null): the teardown after
  it does nothing.
\<close>

theorem cleanup_without_shrinker:
  "(shrinker priv = None \<longrightarrow> msm_gem_shrinker_cleanup unreg priv = priv)
   \<and> fst (msm_gem_shrinker_init k None reg priv) = - ENOMEM k
   \<and> msm_gem_shrinker_cleanup unreg (snd (msm_gem_shrinker_init k None reg priv))
       = snd (msm_gem_shrinker_init k None reg priv)"
  by (simp add: msm_gem_shrinker_cleanup_def msm_gem_shrinker_init_def)

theorem cleanup_without_shrinker_witness:
  "shrinker priv_fresh = None
   \<and> msm_gem_shrinker_cleanup 0 priv_fresh = priv_fresh
   \<and> events (msm_gem_shrinker_cleanup 0 priv_fresh) = []
   \<and> events (msm_gem_shrinker_cleanup 0 (snd (msm_gem_shrinker_init k12 None 0 priv_fresh)))
       = [Shrinker_alloc]"
  using cleanup_without_shrinker [of priv_fresh 0 k12 0]
  by (simp add: priv_fresh_def msm_gem_shrinker_init_def)

text \<open>
  C3. Under a granted lock, one invocation of the mapping-unmap pass
  \<^verbatim>\<open>msm_gem_shrinker_vmap\<close> unmaps the first 15 unmap-eligible objects of the inactive
  collection, or all of them when they are fewer: it adds that number to the accumulator,
  it changes that many objects and no more, and every object it changes was eligible and
  is now unmapped. No eligible object is skipped for good: after \<open>n\<close> invocations,
  each on the state the one before left, the number of eligible objects has gone down
  by \<open>15 * n\<close> (to 0 at the least) and the accumulator has grown by what was unmapped.
  With 20 eligible objects the first pass unmaps 15 and adds 15, and the second unmaps the
  remaining 5.
\<close>

theorem unmap_cap_and_follow_up:
  "fst (msm_gem_shrinker_lock cur priv) \<longrightarrow>
     fst (snd (msm_gem_shrinker_vmap k cur acc priv))
       = acc + of_nat (min 15 (vunmapable_count priv))
     \<and> changed (inactive_list priv)
         (inactive_list (snd (snd (msm_gem_shrinker_vmap k cur acc priv))))
       = min 15 (vunmapable_count priv)
     \<and> (\<forall>i < length (inactive_list priv).
          inactive_list (snd (snd (msm_gem_shrinker_vmap k cur acc priv))) ! i
            = inactive_list priv ! i
          \<or> (is_vunmapable (inactive_list priv ! i)
              \<and> inactive_list (snd (snd (msm_gem_shrinker_vmap k cur acc priv))) ! i
                  = msm_gem_vunmap (inactive_list priv ! i)))
     \<and> vunmapable_count (snd ((vmap_pass k cur ^^ n) (acc, priv)))
         = vunmapable_count priv - 15 * n
     \<and> fst ((vmap_pass k cur ^^ n) (acc, priv))
         = acc + of_nat (min (15 * n) (vunmapable_count priv))
     \<and> (vunmapable_count priv = 20 \<longrightarrow>
          fst (vmap_pass k cur (acc, priv)) = acc + 15
          \<and> changed (inactive_list priv) (inactive_list (snd (vmap_pass k cur (acc, priv))))
              = 15
          \<and> vunmapable_count (snd (vmap_pass k cur (acc, priv))) = 5
          \<and> fst (vmap_pass k cur (vmap_pass k cur (acc, priv))) = acc + 15 + 5
          \<and> changed (inactive_list (snd (vmap_pass k cur (acc, priv))))
               (inactive_list (snd (vmap_pass k cur (vmap_pass k cur (acc, priv))))) = 5
          \<and> vunmapable_count (snd (vmap_pass k cur (vmap_pass k cur (acc, priv)))) = 0)"
proof (intro impI)
  assume g: "fst (msm_gem_shrinker_lock cur priv)"
  let ?objs = "inactive_list priv"
  have v: "inactive_list (snd (snd (msm_gem_shrinker_vmap k cur acc priv)))
    = vunmap_first 15 ?objs" for acc
    by (simp add: vmap_granted_first [OF g])
  have 1: "fst (snd (msm_gem_shrinker_vmap k cur acc priv))
       = acc + of_nat (min 15 (vunmapable_count priv))"
    by (simp add: vmap_granted_first [OF g])
  have 2: "changed ?objs (inactive_list (snd (snd (msm_gem_shrinker_vmap k cur acc priv))))
       = min 15 (vunmapable_count priv)"
    by (simp add: v vunmap_first_changed vunmapable_count_def)
  have 3: "\<forall>i < length ?objs.
          inactive_list (snd (snd (msm_gem_shrinker_vmap k cur acc priv))) ! i = ?objs ! i
          \<or> (is_vunmapable (?objs ! i)
              \<and> inactive_list (snd (snd (msm_gem_shrinker_vmap k cur acc priv))) ! i
                  = msm_gem_vunmap (?objs ! i))"
    using vunmap_first_nth [of _ ?objs 15] by (simp add: v)
  note 4 = vmap_passes [OF g, where k = k and n = n and acc = acc]
  have 5: "fst (vmap_pass k cur (acc, priv)) = acc + 15
          \<and> changed ?objs (inactive_list (snd (vmap_pass k cur (acc, priv)))) = 15
          \<and> vunmapable_count (snd (vmap_pass k cur (acc, priv))) = 5
          \<and> fst (vmap_pass k cur (vmap_pass k cur (acc, priv))) = acc + 15 + 5
          \<and> changed (inactive_list (snd (vmap_pass k cur (acc, priv))))
               (inactive_list (snd (vmap_pass k cur (vmap_pass k cur (acc, priv))))) = 5
          \<and> vunmapable_count (snd (vmap_pass k cur (vmap_pass k cur (acc, priv)))) = 0"
    if e: "vunmapable_count priv = 20"
  proof -
    obtain acc1 priv1 where p1: "vmap_pass k cur (acc, priv) = (acc1, priv1)"
      by (cases "vmap_pass k cur (acc, priv)")
    have g1: "fst (msm_gem_shrinker_lock cur priv1)"
      and c1: "vunmapable_count priv1 = 5" and a1: "acc1 = acc + 15"
      using vmap_pass_granted [OF g, of k acc] p1 e by simp_all
    have ch1: "changed ?objs (inactive_list priv1) = 15"
      using 2 p1 e by (simp add: vmap_pass_def)
    have ch2: "changed (inactive_list priv1)
        (inactive_list (snd (vmap_pass k cur (acc1, priv1)))) = 5"
      using c1 by (simp add: vmap_pass_def vmap_granted_first [OF g1] vunmap_first_changed
          vunmapable_count_def)
    from vmap_pass_granted [OF g1, of k acc1] c1 a1 ch1 ch2 p1 show ?thesis
      by simp
  qed
  from 1 2 3 4 5
  show "fst (snd (msm_gem_shrinker_vmap k cur acc priv))
       = acc + of_nat (min 15 (vunmapable_count priv))
     \<and> changed (inactive_list priv)
         (inactive_list (snd (snd (msm_gem_shrinker_vmap k cur acc priv))))
       = min 15 (vunmapable_count priv)
     \<and> (\<forall>i < length (inactive_list priv).
          inactive_list (snd (snd (msm_gem_shrinker_vmap k cur acc priv))) ! i
            = inactive_list priv ! i
          \<or> (is_vunmapable (inactive_list priv ! i)
              \<and> inactive_list (snd (snd (msm_gem_shrinker_vmap k cur acc priv))) ! i
                  = msm_gem_vunmap (inactive_list priv ! i)))
     \<and> vunmapable_count (snd ((vmap_pass k cur ^^ n) (acc, priv)))
         = vunmapable_count priv - 15 * n
     \<and> fst ((vmap_pass k cur ^^ n) (acc, priv))
         = acc + of_nat (min (15 * n) (vunmapable_count priv))
     \<and> (vunmapable_count priv = 20 \<longrightarrow>
          fst (vmap_pass k cur (acc, priv)) = acc + 15
          \<and> changed (inactive_list priv) (inactive_list (snd (vmap_pass k cur (acc, priv))))
              = 15
          \<and> vunmapable_count (snd (vmap_pass k cur (acc, priv))) = 5
          \<and> fst (vmap_pass k cur (vmap_pass k cur (acc, priv))) = acc + 15 + 5
          \<and> changed (inactive_list (snd (vmap_pass k cur (acc, priv))))
               (inactive_list (snd (vmap_pass k cur (vmap_pass k cur (acc, priv))))) = 5
          \<and> vunmapable_count (snd (vmap_pass k cur (vmap_pass k cur (acc, priv)))) = 0)"
    by blast
qed

theorem unmap_cap_and_follow_up_witness:
  "fst (msm_gem_shrinker_lock 1 (priv_of None objs_20))
   \<and> vunmapable_count (priv_of None objs_20) = 20
   \<and> fst (snd (msm_gem_shrinker_vmap k12 1 7 (priv_of None objs_20))) = 22
   \<and> fst (vmap_pass k12 1 (vmap_pass k12 1 (7, priv_of None objs_20))) = 27
   \<and> vunmapable_count (snd (vmap_pass k12 1 (vmap_pass k12 1 (7, priv_of None objs_20)))) = 0"
  using unmap_cap_and_follow_up [of 1 "priv_of None objs_20" k12 7 2]
  by (simp add: granted_free count_objs_20)

text \<open>
  C4. An object of the inactive collection whose reference count is greater than 0 is
  never selected by the capacity estimator, the storage-purge pass or the mapping-unmap
  pass, whatever its discard advice, its residency and its virtual mapping: it satisfies
  neither eligibility predicate, both passes leave it exactly as it was, and the count,
  the freed total and the accumulator are what they are on the collection without such
  objects.
\<close>

theorem pinned_never_selected:
  "fst (msm_gem_shrinker_count k cur (unpinned priv)) = fst (msm_gem_shrinker_count k cur priv)
   \<and> fst (msm_gem_shrinker_scan k cur nr (unpinned priv))
       = fst (msm_gem_shrinker_scan k cur nr priv)
   \<and> fst (snd (msm_gem_shrinker_vmap k cur acc (unpinned priv)))
       = fst (snd (msm_gem_shrinker_vmap k cur acc priv))
   \<and> (\<forall>i < length (inactive_list priv). 0 < refcount (inactive_list priv ! i) \<longrightarrow>
        \<not> is_purgeable (inactive_list priv ! i)
        \<and> \<not> is_vunmapable (inactive_list priv ! i)
        \<and> inactive_list (snd (msm_gem_shrinker_scan k cur nr priv)) ! i
            = inactive_list priv ! i
        \<and> inactive_list (snd (snd (msm_gem_shrinker_vmap k cur acc priv))) ! i
            = inactive_list priv ! i)"
proof (cases "fst (msm_gem_shrinker_lock cur priv)")
  case True
  then have u: "fst (msm_gem_shrinker_lock cur (unpinned priv))"
    by (simp add: granted_unpinned)
  have c: "fst (msm_gem_shrinker_count k cur (unpinned priv))
      = fst (msm_gem_shrinker_count k cur priv)"
    by (simp add: count_granted [OF True] count_granted [OF u] purgeable_units_unpinned)
  have s: "fst (msm_gem_shrinker_scan k cur nr (unpinned priv))
       = fst (msm_gem_shrinker_scan k cur nr priv)"
    by (simp add: scan_granted [OF True] scan_granted [OF u] scan_loop_unpinned)
  have v: "fst (snd (msm_gem_shrinker_vmap k cur acc (unpinned priv)))
       = fst (snd (msm_gem_shrinker_vmap k cur acc priv))"
    by (simp add: vmap_granted [OF True] vmap_granted [OF u] vmap_loop_unpinned)
  have n: "\<not> is_purgeable (inactive_list priv ! i)
        \<and> \<not> is_vunmapable (inactive_list priv ! i)
        \<and> inactive_list (snd (msm_gem_shrinker_scan k cur nr priv)) ! i
            = inactive_list priv ! i
        \<and> inactive_list (snd (snd (msm_gem_shrinker_vmap k cur acc priv))) ! i
            = inactive_list priv ! i"
    if "i < length (inactive_list priv)" and "0 < refcount (inactive_list priv ! i)" for i
    using that pinned_not_eligible [OF that(2)]
    by (simp add: scan_granted [OF True] vmap_granted [OF True] scan_loop_nth_ineligible
        vmap_loop_nth_ineligible)
  from c s v n show ?thesis by blast
next
  case False
  then have u: "\<not> fst (msm_gem_shrinker_lock cur (unpinned priv))"
    by (simp add: granted_unpinned)
  from not_granted [OF False] not_granted [OF u] show ?thesis
    by (simp add: msm_gem_shrinker_count_def msm_gem_shrinker_scan_def
        msm_gem_shrinker_vmap_def pinned_not_eligible)
qed

theorem pinned_never_selected_witness:
  "0 < length (inactive_list (priv_of None (obj_pinned 3 # objs_abc)))
   \<and> 0 < refcount (inactive_list (priv_of None (obj_pinned 3 # objs_abc)) ! 0)
   \<and> madv (obj_pinned 3) = WillingToDiscard \<and> vaddr (obj_pinned 3) \<and> resident (obj_pinned 3)
   \<and> fst (msm_gem_shrinker_count k12 1 (priv_of None (obj_pinned 3 # objs_abc))) = 14
   \<and> fst (msm_gem_shrinker_scan k12 1 20 (priv_of None (obj_pinned 3 # objs_abc))) = 14
   \<and> fst (snd (msm_gem_shrinker_vmap k12 1 0 (priv_of None (obj_pinned 3 # objs_abc)))) = 3
   \<and> inactive_list (snd (msm_gem_shrinker_scan k12 1 20
         (priv_of None (obj_pinned 3 # objs_abc)))) ! 0 = obj_pinned 3
   \<and> inactive_list (snd (snd (msm_gem_shrinker_vmap k12 1 0
         (priv_of None (obj_pinned 3 # objs_abc))))) ! 0 = obj_pinned 3"
proof -
  have u: "unpinned (priv_of None (obj_pinned 3 # objs_abc)) = priv_of None objs_abc"
    by (simp add: unpinned_def priv_of_def objs_abc_def obj_pinned_def obj_pages_def)
  have g: "fst (msm_gem_shrinker_lock 1 (priv_of None objs_abc))"
    by (rule granted_free)
  have c: "fst (msm_gem_shrinker_count k12 1 (priv_of None objs_abc)) = 14"
    unfolding count_granted [OF g]
    by (simp add: purgeable_units_def objs_abc_def purgeable_obj_pages units_obj_pages_abc)
  have s: "fst (msm_gem_shrinker_scan k12 1 20 (priv_of None objs_abc)) = 14"
    unfolding scan_granted [OF g]
    by (simp add: objs_abc_def is_purgeable_def obj_pages_def k12_def Let_def)
  have v: "fst (snd (msm_gem_shrinker_vmap k12 1 0 (priv_of None objs_abc))) = 3"
    unfolding vmap_granted_first [OF g]
    by (simp add: vunmapable_count_def objs_abc_def vunmapable_obj_pages)
  have r: "0 < refcount (obj_pinned 3)" "madv (obj_pinned 3) = WillingToDiscard"
    "vaddr (obj_pinned 3)" "resident (obj_pinned 3)"
    by (simp_all add: obj_pinned_def obj_pages_def)
  from pinned_never_selected [of k12 1 "priv_of None (obj_pinned 3 # objs_abc)" 20 0]
  show ?thesis
    using u c s v r by simp
qed

text \<open>
  C8, as stated: for every invocation the freed total that the storage-purge pass returns
  does not exceed the requested budget. The pass on A (4 units), B (2 units), C (8 units)
  with budget 5 returns 6.
\<close>

theorem scan_exceeds_budget:
  "\<not> fst (msm_gem_shrinker_scan k12 1 5 (priv_of None objs_abc)) \<le> 5"
  unfolding scan_granted [OF granted_free] by (simp add: scan_abc_5)


text \<open>
  C8, amended. Under a granted lock the freed total can exceed the requested budget, but
  only through the last purge: either the pass purges nothing and returns 0, or there is
  a last purged object, the running total before that object was below the budget, and
  the returned total is that running total plus the units of that object. When the pass
  returns fewer units than requested, no purge-eligible object remains in the inactive
  collection, and the total is the sum over all objects that were eligible. The totals
  are \<^verbatim>\<open>unsigned long\<close> values.
\<close>

theorem scan_overshoot_last_purge:
  "fst (msm_gem_shrinker_lock cur priv) \<longrightarrow>
     ((inactive_list (snd (msm_gem_shrinker_scan k cur nr priv)) = inactive_list priv
       \<and> fst (msm_gem_shrinker_scan k cur nr priv) = 0)
      \<or> (\<exists>i < length (inactive_list priv).
           is_purgeable (inactive_list priv ! i)
           \<and> inactive_list (snd (msm_gem_shrinker_scan k cur nr priv)) ! i
               = msm_gem_purge (inactive_list priv ! i)
           \<and> drop (Suc i) (inactive_list (snd (msm_gem_shrinker_scan k cur nr priv)))
               = drop (Suc i) (inactive_list priv)
           \<and> purgeable_units k (take i (inactive_list priv)) < nr
           \<and> fst (msm_gem_shrinker_scan k cur nr priv)
               = purgeable_units k (take i (inactive_list priv))
                 + units k (inactive_list priv ! i)))
     \<and> (fst (msm_gem_shrinker_scan k cur nr priv) < nr \<longrightarrow>
          filter is_purgeable (inactive_list (snd (msm_gem_shrinker_scan k cur nr priv))) = []
          \<and> fst (msm_gem_shrinker_scan k cur nr priv) = purgeable_units k (inactive_list priv))"
proof (intro impI conjI)
  assume g: "fst (msm_gem_shrinker_lock cur priv)"
  from scan_loop_last [of k nr 0 "inactive_list priv"]
  show "(inactive_list (snd (msm_gem_shrinker_scan k cur nr priv)) = inactive_list priv
       \<and> fst (msm_gem_shrinker_scan k cur nr priv) = 0)
      \<or> (\<exists>i < length (inactive_list priv).
           is_purgeable (inactive_list priv ! i)
           \<and> inactive_list (snd (msm_gem_shrinker_scan k cur nr priv)) ! i
               = msm_gem_purge (inactive_list priv ! i)
           \<and> drop (Suc i) (inactive_list (snd (msm_gem_shrinker_scan k cur nr priv)))
               = drop (Suc i) (inactive_list priv)
           \<and> purgeable_units k (take i (inactive_list priv)) < nr
           \<and> fst (msm_gem_shrinker_scan k cur nr priv)
               = purgeable_units k (take i (inactive_list priv))
                 + units k (inactive_list priv ! i))"
    by (simp add: scan_granted [OF g])
next
  assume g: "fst (msm_gem_shrinker_lock cur priv)"
    and "fst (msm_gem_shrinker_scan k cur nr priv) < nr"
  then have b: "snd (scan_loop k nr 0 (inactive_list priv)) < nr"
    by (simp add: scan_granted [OF g])
  from scan_loop_exhausted [OF b]
  show "filter is_purgeable (inactive_list (snd (msm_gem_shrinker_scan k cur nr priv))) = []"
    and "fst (msm_gem_shrinker_scan k cur nr priv) = purgeable_units k (inactive_list priv)"
    by (simp_all add: scan_granted [OF g])
qed

theorem scan_overshoot_last_purge_witness:
  "fst (msm_gem_shrinker_lock 1 (priv_of None objs_abc))
   \<and> fst (msm_gem_shrinker_scan k12 1 5 (priv_of None objs_abc)) = 6
   \<and> purgeable_units k12 (take 1 objs_abc) < 5
   \<and> purgeable_units k12 (take 1 objs_abc) + units k12 (objs_abc ! 1) = 6
   \<and> fst (msm_gem_shrinker_scan k12 1 20 (priv_of None objs_abc)) < 20
   \<and> filter is_purgeable
       (inactive_list (snd (msm_gem_shrinker_scan k12 1 20 (priv_of None objs_abc)))) = []
   \<and> fst (msm_gem_shrinker_scan k12 1 20 (priv_of None objs_abc)) = 14"
proof -
  have g: "fst (msm_gem_shrinker_lock 1 (priv_of None objs_abc))"
    by (rule granted_free)
  have a: "fst (msm_gem_shrinker_scan k12 1 5 (priv_of None objs_abc)) = 6"
    "fst (msm_gem_shrinker_scan k12 1 20 (priv_of None objs_abc)) = 14"
    unfolding scan_granted [OF g] by (simp_all add: scan_abc_5 scan_abc_20)
  have p: "purgeable_units k12 (take 1 objs_abc) = 4" "units k12 (objs_abc ! 1) = 2"
    "purgeable_units k12 objs_abc = 14"
    by (simp_all add: purgeable_units_def objs_abc_def purgeable_obj_pages units_obj_pages_abc)
  have lt: "fst (msm_gem_shrinker_scan k12 1 20 (priv_of None objs_abc)) < 20"
    unfolding a by simp
  note e = scan_overshoot_last_purge
    [of 1 "priv_of None objs_abc" k12 20, THEN mp, OF g, THEN conjunct2, THEN mp, OF lt]
  from g a p e show ?thesis
    by simp
qed

text \<open>
  C9, as stated: each pass terminates in work proportional to the requested budget (the
  purge pass) or to the cap of 15 (the unmap pass), never in work proportional to the
  size of the inactive collection when the budget is small. On a collection of 100
  pinned objects followed by one idle object, with the lock free, the purge pass with
  budget 1 and the unmap pass both test all 101 objects, and reach the last one.
\<close>

theorem walk_exceeds_budget:
  "length objs_walk = 101
   \<and> scan_visited k12 1 0 objs_walk = 101
   \<and> inactive_list (snd (msm_gem_shrinker_scan k12 0 1 (priv_of None objs_walk))) ! 100
       = msm_gem_purge (obj_pages 1)
   \<and> vmap_visited 0 objs_walk = 101
   \<and> inactive_list (snd (snd (msm_gem_shrinker_vmap k12 0 0 (priv_of None objs_walk)))) ! 100
       = msm_gem_vunmap (obj_pages 1)
   \<and> scan_tested k12 0 1 (priv_of None objs_walk) = 101
   \<and> vmap_tested 0 (priv_of None objs_walk) = 101"
proof -
  have b: "\<not> (1::ulong) \<le> 0" by simp
  have c: "\<not> (15::uint) \<le> 0 + 1" by (simp add: word_le_nat_alt)
  have 1: "scan_visited k12 1 0 objs_walk = 101"
    unfolding objs_walk_def scan_visited_pinned [OF b]
    by (simp add: purgeable_obj_pages)
  have 2: "fst (scan_loop k12 1 0 objs_walk) ! 100 = msm_gem_purge (obj_pages 1)"
    unfolding objs_walk_def scan_loop_pinned [OF b]
    by (simp add: purgeable_obj_pages nth_append)
  have 3: "vmap_visited 0 objs_walk = 101"
    unfolding objs_walk_def vmap_visited_pinned
    using c by (simp add: vunmapable_obj_pages)
  have 4: "fst (vmap_loop 0 objs_walk) ! 100 = msm_gem_vunmap (obj_pages 1)"
    unfolding objs_walk_def vmap_loop_pinned
    using c by (simp add: vunmapable_obj_pages nth_append)
  have 5: "length objs_walk = 101" by (simp add: objs_walk_def)
  from 1 2 3 4 5 show ?thesis
    unfolding scan_granted [OF granted_free] vmap_granted [OF granted_free]
      tested_granted [OF granted_free]
    by simp
qed

text \<open>
  C9, amended. Both loops are recursions over the finite collection, so every invocation
  terminates, and it tests each object at most once: the work is bounded by the length of
  the inactive collection. An invocation that is refused the lock tests no object and
  returns its no-op result. The budget and the cap stop the walk early: the purge pass
  tests no object from the first position on at which the running total has reached the
  budget, and the unmap pass tests no object after the 15th eligible one. In an
  invocation that acquires the lock, the objects tested are exactly those before the
  first such position: before each of them the running total is below the budget (fewer
  than 15 eligible objects precede it), and where the walk ends before the end of the
  collection the budget is met (15 objects were unmapped). Objects that are not eligible
  are walked without consuming budget, so while the running total stays below the budget
  the purge pass tests the whole collection, and so does the unmap pass when fewer than
  15 objects are eligible. The objects not tested are unchanged, the tested ones are
  purged or unmapped where eligible, and the freed total is the sum over the tested
  ones.
\<close>

theorem pass_work_bounds:
  "scan_tested k cur nr priv \<le> length (inactive_list priv)
   \<and> vmap_tested cur priv \<le> length (inactive_list priv)
   \<and> (\<not> fst (msm_gem_shrinker_lock cur priv) \<longrightarrow>
        scan_tested k cur nr priv = 0 \<and> vmap_tested cur priv = 0
        \<and> msm_gem_shrinker_scan k cur nr priv = (SHRINK_STOP k, priv)
        \<and> msm_gem_shrinker_vmap k cur acc priv = (NOTIFY_DONE k, acc, priv))
   \<and> (\<forall>K \<le> length (inactive_list priv).
        nr \<le> purgeable_units k (take K (inactive_list priv)) \<longrightarrow>
        scan_tested k cur nr priv \<le> K)
   \<and> (\<forall>K \<le> length (inactive_list priv).
        15 \<le> length (filter is_vunmapable (take K (inactive_list priv))) \<longrightarrow>
        vmap_tested cur priv \<le> K)
   \<and> (fst (msm_gem_shrinker_lock cur priv) \<longrightarrow>
        (\<forall>j < scan_tested k cur nr priv.
           purgeable_units k (take j (inactive_list priv)) < nr)
        \<and> (scan_tested k cur nr priv < length (inactive_list priv) \<longrightarrow>
             nr \<le> purgeable_units k (take (scan_tested k cur nr priv) (inactive_list priv)))
        \<and> ((\<forall>K < length (inactive_list priv).
               purgeable_units k (take K (inactive_list priv)) < nr) \<longrightarrow>
             scan_tested k cur nr priv = length (inactive_list priv))
        \<and> fst (msm_gem_shrinker_scan k cur nr priv)
            = purgeable_units k (take (scan_tested k cur nr priv) (inactive_list priv))
        \<and> inactive_list (snd (msm_gem_shrinker_scan k cur nr priv))
            = map (\<lambda>obj. if is_purgeable obj then msm_gem_purge obj else obj)
                (take (scan_tested k cur nr priv) (inactive_list priv))
              @ drop (scan_tested k cur nr priv) (inactive_list priv)
        \<and> (\<forall>j < vmap_tested cur priv.
             length (filter is_vunmapable (take j (inactive_list priv))) < 15)
        \<and> (vmap_tested cur priv < length (inactive_list priv) \<longrightarrow>
             length (filter is_vunmapable (take (vmap_tested cur priv) (inactive_list priv)))
               = 15)
        \<and> (vunmapable_count priv < 15 \<longrightarrow>
             vmap_tested cur priv = length (inactive_list priv))
        \<and> inactive_list (snd (snd (msm_gem_shrinker_vmap k cur acc priv)))
            = map (\<lambda>obj. if is_vunmapable obj then msm_gem_vunmap obj else obj)
                (take (vmap_tested cur priv) (inactive_list priv))
              @ drop (vmap_tested cur priv) (inactive_list priv))"
proof -
  let ?objs = "inactive_list priv"
  have 1: "scan_tested k cur nr priv \<le> length ?objs"
    using tested_le_visited(1) [of k cur nr priv] scan_visited_le [of k nr 0 ?objs]
    by (rule order_trans)
  have 2: "vmap_tested cur priv \<le> length ?objs"
    using tested_le_visited(2) [of cur priv] vmap_visited_le [of 0 ?objs]
    by (rule order_trans)
  have 3: "scan_tested k cur nr priv = 0 \<and> vmap_tested cur priv = 0
        \<and> msm_gem_shrinker_scan k cur nr priv = (SHRINK_STOP k, priv)
        \<and> msm_gem_shrinker_vmap k cur acc priv = (NOTIFY_DONE k, acc, priv)"
    if r: "\<not> fst (msm_gem_shrinker_lock cur priv)"
    using not_granted [OF r]
    by (simp add: tested_refused [OF r] msm_gem_shrinker_scan_def msm_gem_shrinker_vmap_def)
  have 4: "scan_tested k cur nr priv \<le> K"
    if "K \<le> length ?objs" and "nr \<le> purgeable_units k (take K ?objs)" for K
    using tested_le_visited(1) [of k cur nr priv] scan_loop_stops [OF that]
    by (rule order_trans)
  have 5: "vmap_tested cur priv \<le> K"
    if "K \<le> length ?objs" and "15 \<le> length (filter is_vunmapable (take K ?objs))" for K
  proof -
    from that vmap_visited_stops [of 0 K ?objs] have "vmap_visited 0 ?objs \<le> K" by simp
    with tested_le_visited(2) [of cur priv] show ?thesis by (rule order_trans)
  qed
  have 6: "(\<forall>j < scan_tested k cur nr priv. purgeable_units k (take j ?objs) < nr)
        \<and> (scan_tested k cur nr priv < length ?objs \<longrightarrow>
             nr \<le> purgeable_units k (take (scan_tested k cur nr priv) ?objs))
        \<and> ((\<forall>K < length ?objs. purgeable_units k (take K ?objs) < nr) \<longrightarrow>
             scan_tested k cur nr priv = length ?objs)
        \<and> fst (msm_gem_shrinker_scan k cur nr priv)
            = purgeable_units k (take (scan_tested k cur nr priv) ?objs)
        \<and> inactive_list (snd (msm_gem_shrinker_scan k cur nr priv))
            = map (\<lambda>obj. if is_purgeable obj then msm_gem_purge obj else obj)
                (take (scan_tested k cur nr priv) ?objs)
              @ drop (scan_tested k cur nr priv) ?objs
        \<and> (\<forall>j < vmap_tested cur priv.
             length (filter is_vunmapable (take j ?objs)) < 15)
        \<and> (vmap_tested cur priv < length ?objs \<longrightarrow>
             length (filter is_vunmapable (take (vmap_tested cur priv) ?objs)) = 15)
        \<and> (vunmapable_count priv < 15 \<longrightarrow> vmap_tested cur priv = length ?objs)
        \<and> inactive_list (snd (snd (msm_gem_shrinker_vmap k cur acc priv)))
            = map (\<lambda>obj. if is_vunmapable obj then msm_gem_vunmap obj else obj)
                (take (vmap_tested cur priv) ?objs)
              @ drop (vmap_tested cur priv) ?objs"
    if g: "fst (msm_gem_shrinker_lock cur priv)"
  proof -
    note t = tested_granted [OF g]
    have a: "\<forall>j < scan_visited k nr 0 ?objs. purgeable_units k (take j ?objs) < nr"
      using scan_visited_below [of _ k nr 0 ?objs] by simp
    have b: "scan_visited k nr 0 ?objs < length ?objs \<longrightarrow>
        nr \<le> purgeable_units k (take (scan_visited k nr 0 ?objs) ?objs)"
      using scan_visited_stop [of k nr 0 ?objs] by simp
    have c: "(\<forall>K < length ?objs. purgeable_units k (take K ?objs) < nr) \<longrightarrow>
        scan_visited k nr 0 ?objs = length ?objs"
      using scan_visited_all [of ?objs k nr] by blast
    have d: "fst (msm_gem_shrinker_scan k cur nr priv)
        = purgeable_units k (take (scan_visited k nr 0 ?objs) ?objs)"
      by (simp add: scan_granted [OF g] scan_loop_visited)
    have e: "inactive_list (snd (msm_gem_shrinker_scan k cur nr priv))
        = map (\<lambda>obj. if is_purgeable obj then msm_gem_purge obj else obj)
            (take (scan_visited k nr 0 ?objs) ?objs) @ drop (scan_visited k nr 0 ?objs) ?objs"
      by (simp add: scan_granted [OF g] scan_loop_visited)
    have f: "\<forall>j < vmap_visited 0 ?objs. length (filter is_vunmapable (take j ?objs)) < 15"
      using vmap_visited_below [of 0 _ ?objs] by simp
    have h: "vmap_visited 0 ?objs < length ?objs \<longrightarrow>
        length (filter is_vunmapable (take (vmap_visited 0 ?objs) ?objs)) = 15"
      using vmap_visited_stop [of 0 ?objs] by simp
    have i: "vunmapable_count priv < 15 \<longrightarrow> vmap_visited 0 ?objs = length ?objs"
      using vmap_visited_all [of 0 ?objs] by (simp add: vunmapable_count_def)
    have j: "inactive_list (snd (snd (msm_gem_shrinker_vmap k cur acc priv)))
        = map (\<lambda>obj. if is_vunmapable obj then msm_gem_vunmap obj else obj)
            (take (vmap_visited 0 ?objs) ?objs) @ drop (vmap_visited 0 ?objs) ?objs"
      using vmap_loop_visited [of 0 ?objs] by (simp add: vmap_granted [OF g])
    from a b c d e f h i j show ?thesis
      unfolding t by (intro conjI)
  qed
  from 1 2 3 4 5 6 show ?thesis
    by (intro conjI allI impI) blast+
qed


theorem pass_work_bounds_witness:
  "2 \<le> length (inactive_list (priv_of None objs_abc))
   \<and> 5 \<le> purgeable_units k12 (take 2 (inactive_list (priv_of None objs_abc)))
   \<and> scan_tested k12 0 5 (priv_of None objs_abc) \<le> 2
   \<and> 15 \<le> length (filter is_vunmapable (take 15 (inactive_list (priv_of None objs_20))))
   \<and> vmap_tested 0 (priv_of None objs_20) \<le> 15
   \<and> fst (msm_gem_shrinker_lock 0 (priv_of None objs_pinned2))
   \<and> purgeable_units k12 (take 0 objs_pinned2) < 1
   \<and> purgeable_units k12 (take 1 objs_pinned2) < 1
   \<and> scan_tested k12 0 1 (priv_of None objs_pinned2) = 2
   \<and> vunmapable_count (priv_of None objs_pinned2) < 15
   \<and> vmap_tested 0 (priv_of None objs_pinned2) = 2
   \<and> \<not> fst (msm_gem_shrinker_lock 1 (priv_of (Some 2) objs_pinned2))
   \<and> scan_tested k12 1 1 (priv_of (Some 2) objs_pinned2) = 0
   \<and> vmap_tested 1 (priv_of (Some 2) objs_pinned2) = 0"
proof -
  let ?A = "priv_of None objs_abc" and ?B = "priv_of None objs_20"
    and ?C = "priv_of None objs_pinned2" and ?D = "priv_of (Some 2) objs_pinned2"
  have a1: "2 \<le> length (inactive_list ?A)"
    by (simp add: objs_abc_def)
  have a2: "5 \<le> purgeable_units k12 (take 2 (inactive_list ?A))"
    by (simp add: purgeable_units_def objs_abc_def purgeable_obj_pages units_obj_pages_abc)
  note a = pass_work_bounds [of k12 0 5 ?A, THEN conjunct2, THEN conjunct2, THEN conjunct2,
      THEN conjunct1, THEN spec, THEN mp, THEN mp, OF a1 a2]
  have b1: "15 \<le> length (inactive_list ?B)"
    by (simp add: objs_20_def)
  have b2: "15 \<le> length (filter is_vunmapable (take 15 (inactive_list ?B)))"
    by (simp add: objs_20_def vunmapable_obj_pages)
  note b = pass_work_bounds [of k12 0 5 ?B, THEN conjunct2, THEN conjunct2, THEN conjunct2,
      THEN conjunct2, THEN conjunct1, THEN spec, THEN mp, THEN mp, OF b1 b2]
  have g: "fst (msm_gem_shrinker_lock 0 ?C)"
    by (rule granted_free)
  note G = pass_work_bounds [of k12 0 1 ?C, THEN conjunct2, THEN conjunct2, THEN conjunct2,
      THEN conjunct2, THEN conjunct2, THEN mp, OF g]
  have c0: "purgeable_units k12 (take 0 objs_pinned2) < 1"
    "purgeable_units k12 (take 1 objs_pinned2) < 1"
    by (simp_all add: purgeable_units_def objs_pinned2_def pinned_obj_pinned)
  have c1: "\<forall>K < length (inactive_list ?C). purgeable_units k12 (take K (inactive_list ?C)) < 1"
  proof (intro allI impI)
    fix K assume "K < length (inactive_list ?C)"
    then have "K = 0 \<or> K = 1" by (auto simp: objs_pinned2_def)
    with c0 show "purgeable_units k12 (take K (inactive_list ?C)) < 1" by auto
  qed
  note c = G [THEN conjunct2, THEN conjunct2, THEN conjunct1, THEN mp, OF c1]
  have d1: "vunmapable_count ?C < 15"
    by (simp add: vunmapable_count_def objs_pinned2_def pinned_obj_pinned)
  note d = G [THEN conjunct2, THEN conjunct2, THEN conjunct2, THEN conjunct2, THEN conjunct2,
      THEN conjunct2, THEN conjunct2, THEN conjunct1, THEN mp, OF d1]
  have r: "\<not> fst (msm_gem_shrinker_lock 1 ?D)"
    by (simp add: lock_granted_iff priv_of_def)
  note e = pass_work_bounds [of k12 1 1 ?D, THEN conjunct2, THEN conjunct2, THEN conjunct1,
      THEN mp, OF r]
  have l: "length (inactive_list ?C) = 2"
    by (simp add: objs_pinned2_def)
  from a1 a2 a b2 b g c0 c d1 d r e l show ?thesis
    by simp
qed

end
